theory Spec2Isabelle
  imports Complex_Main "HOL-Library.Sublist" "HOL-Library.Product_Lexorder"
    "HOL-Library.List_Lexorder" "HOL-Library.Char_ord" "HOL-Library.Multiset"
begin

section \<open>Errors of the Python run time\<close>

text \<open>
  A dictionary subscript on a missing key raises \<open>KeyError\<close>, a list subscript or a pop
  on an empty list raises \<open>IndexError\<close>, a division by zero raises \<open>ZeroDivisionError\<close>.
  A function that can raise returns \<open>error + 'a\<close>, with \<open>Inl\<close> the exception that leaves
  the function.
\<close>

datatype error = KeyError | IndexError | ZeroDivisionError | RecursionError

section \<open>Union-Find (kruskal.py, class UnionFind)\<close>

text \<open>
  The object holds two dictionaries: \<open>padre\<close> (node to parent) and \<open>rango\<close> (node to rank).
  Methods mutate the object; the model passes the object in and returns it updated.
\<close>

record 'a union_find =
  padre :: "'a \<rightharpoonup> 'a"
  rango :: "'a \<rightharpoonup> int"

definition UnionFind :: "'a list \<Rightarrow> 'a union_find" where
  "UnionFind nodos =
     \<lparr> padre = (\<lambda>n. if n \<in> set nodos then Some n else None),
       rango = (\<lambda>n. if n \<in> set nodos then Some 0 else None) \<rparr>"

text \<open>
  \<open>encontrar\<close> is recursive on the parent dictionary and need not return when that
  dictionary has a cycle: the outer \<open>option\<close> is \<open>None\<close> exactly when the recursion does not
  end; \<open>Some (Inl KeyError)\<close> is the failed subscript \<open>self.padre[nodo]\<close>.
\<close>

partial_function (option) encontrar ::
  "'a union_find \<Rightarrow> 'a \<Rightarrow> (error + 'a \<times> 'a union_find) option" where
  "encontrar uf nodo =
     (case padre uf nodo of
        None \<Rightarrow> Some (Inl KeyError)
      | Some p \<Rightarrow>
          if p \<noteq> nodo then
            Option.bind (encontrar uf p) (\<lambda>r.
              case r of
                Inl e \<Rightarrow> Some (Inl e)
              | Inr (raiz, uf1) \<Rightarrow>
                  Some (Inr (raiz, uf1\<lparr>padre := (padre uf1)(nodo \<mapsto> raiz)\<rparr>)))
          else Some (Inr (p, uf)))"

definition unir :: "'a union_find \<Rightarrow> 'a \<Rightarrow> 'a \<Rightarrow> (error + bool \<times> 'a union_find) option" where
  "unir uf nodo1 nodo2 =
     Option.bind (encontrar uf nodo1) (\<lambda>r1.
       case r1 of
         Inl e \<Rightarrow> Some (Inl e)
       | Inr (raiz1, uf1) \<Rightarrow>
           Option.bind (encontrar uf1 nodo2) (\<lambda>r2.
             case r2 of
               Inl e \<Rightarrow> Some (Inl e)
             | Inr (raiz2, uf2) \<Rightarrow>
                 if raiz1 = raiz2 then Some (Inr (False, uf2))
                 else
                   (case (rango uf2 raiz1, rango uf2 raiz2) of
                      (Some k1, Some k2) \<Rightarrow>
                        if k1 < k2 then
                          Some (Inr (True, uf2\<lparr>padre := (padre uf2)(raiz1 \<mapsto> raiz2)\<rparr>))
                        else if k1 > k2 then
                          Some (Inr (True, uf2\<lparr>padre := (padre uf2)(raiz2 \<mapsto> raiz1)\<rparr>))
                        else
                          Some (Inr (True, uf2\<lparr>padre := (padre uf2)(raiz2 \<mapsto> raiz1),
                                               rango := (rango uf2)(raiz1 \<mapsto> k1 + 1)\<rparr>))
                    | _ \<Rightarrow> Some (Inl KeyError))))"


declare encontrar.simps [code]

section \<open>Kruskal (kruskal.py, function kruskal)\<close>

text \<open>
  An edge is the tuple \<open>(nodo1, nodo2, peso)\<close>; weights are Python integers. The set \<open>nodos\<close>
  is kept as a duplicate-free list, so that \<open>len(nodos)\<close> is its length; \<open>UnionFind\<close> only
  reads which nodes it holds. \<open>sorted(aristas, key=lambda x: x[2])\<close> is a stable sort on the
  weight, as \<open>sort_key\<close> is. The \<open>for\<close> loop with its \<open>break\<close> is \<open>kruskal_bucle\<close>.
\<close>

type_synonym 'a arista = "'a \<times> 'a \<times> int"

definition peso_de :: "'a arista \<Rightarrow> int" where
  "peso_de x = snd (snd x)"

definition nodos_de :: "'a arista list \<Rightarrow> 'a list" where
  "nodos_de aristas = remdups (concat (map (\<lambda>(nodo1, nodo2, _). [nodo1, nodo2]) aristas))"

fun kruskal_bucle ::
  "nat \<Rightarrow> 'a union_find \<Rightarrow> 'a arista list \<Rightarrow> 'a arista list \<Rightarrow> int \<Rightarrow>
   (error + 'a arista list \<times> int) option" where
  "kruskal_bucle n uf [] mst_aristas peso_total = Some (Inr (mst_aristas, peso_total))"
| "kruskal_bucle n uf ((nodo1, nodo2, peso) # resto) mst_aristas peso_total =
     (case unir uf nodo1 nodo2 of
        None \<Rightarrow> None
      | Some (Inl e) \<Rightarrow> Some (Inl e)
      | Some (Inr (unidos, uf')) \<Rightarrow>
          if unidos then
            (let mst' = mst_aristas @ [(nodo1, nodo2, peso)];
                 total' = peso_total + peso
             in if int (length mst') = int n - 1 then Some (Inr (mst', total'))
                else kruskal_bucle n uf' resto mst' total')
          else kruskal_bucle n uf' resto mst_aristas peso_total)"

definition kruskal :: "'a arista list \<Rightarrow> (error + 'a arista list \<times> int) option" where
  "kruskal aristas =
     (if aristas = [] then Some (Inr ([], 0))
      else
        let nodos = nodos_de aristas;
            aristas_ordenadas = sort_key peso_de aristas;
            uf = UnionFind nodos
        in kruskal_bucle (length nodos) uf aristas_ordenadas [] 0)"

section \<open>Adjacency dictionary (prim.py and dijkstra.py, the loop that builds grafo)\<close>

text \<open>
  The dictionary \<open>grafo\<close> keeps its keys in insertion order (\<open>list(grafo.keys())[0]\<close> reads the
  first one), so it is an association list with distinct keys; \<open>grafo[k]\<close> is \<open>map_of\<close>.
\<close>

type_synonym 'a grafo = "('a \<times> ('a \<times> int) list) list"

definition asegurar :: "'a \<Rightarrow> 'a grafo \<Rightarrow> 'a grafo" where
  "asegurar nodo grafo = (if nodo \<in> fst ` set grafo then grafo else grafo @ [(nodo, [])])"

definition agregar_vecino :: "'a \<Rightarrow> 'a \<times> int \<Rightarrow> 'a grafo \<Rightarrow> 'a grafo" where
  "agregar_vecino nodo x grafo =
     map (\<lambda>(k, vecinos). if k = nodo then (k, vecinos @ [x]) else (k, vecinos)) grafo"

fun construir_desde :: "'a grafo \<Rightarrow> 'a arista list \<Rightarrow> 'a grafo" where
  "construir_desde grafo [] = grafo"
| "construir_desde grafo ((nodo1, nodo2, peso) # resto) =
     construir_desde
       (agregar_vecino nodo2 (nodo1, peso)
          (agregar_vecino nodo1 (nodo2, peso) (asegurar nodo2 (asegurar nodo1 grafo))))
       resto"

definition construir_grafo :: "'a arista list \<Rightarrow> 'a grafo" where
  "construir_grafo aristas = construir_desde [] aristas"

section \<open>Priority queue of tuples (heapq, as prim.py and dijkstra.py use it)\<close>

text \<open>
  Both engines push tuples, which Python compares lexicographically, a total order.
  \<open>heapq.heappop\<close> returns the least entry of the heap. The entries are kept in a list and the
  least one is taken out; the array layout of the binary heap is not modelled, since the
  entry popped and the entries that remain do not depend on it when the order is total.
\<close>

definition heappush :: "'a list \<Rightarrow> 'a \<Rightarrow> 'a list" where
  "heappush heap item = item # heap"

definition heappop :: "'a::linorder list \<Rightarrow> 'a \<times> 'a list" where
  "heappop heap = (let m = Min (set heap) in (m, remove1 m heap))"

lemma heappop_largo: "(x, heap1) = heappop heap \<Longrightarrow> heap \<noteq> [] \<Longrightarrow> length heap1 < length heap"
  by (auto simp: heappop_def Let_def length_remove1)

lemma no_visitados_decrece:
  "map_of grafo n = Some vecinos \<Longrightarrow> n \<notin> visitados \<Longrightarrow>
   length (filter (\<lambda>k. k \<notin> insert n visitados) (map fst grafo))
     < length (filter (\<lambda>k. k \<notin> visitados) (map fst grafo))"
proof (induction grafo)
  case Nil
  then show ?case by simp
next
  case (Cons a grafo)
  have le: "length (filter (\<lambda>k. k \<notin> insert n visitados) (map fst grafo))
      \<le> length (filter (\<lambda>k. k \<notin> visitados) (map fst grafo))"
    by (induction grafo) auto
  show ?case
  proof (cases "fst a = n")
    case True
    with Cons.prems le show ?thesis by (auto simp: less_Suc_eq_le)
  next
    case False
    with Cons show ?thesis by (cases a) auto
  qed
qed

section \<open>Prim (prim.py, function prim)\<close>

function prim_bucle ::
  "'a::linorder grafo \<Rightarrow> 'a set \<Rightarrow> (int \<times> 'a \<times> 'a) list \<Rightarrow> 'a arista list \<Rightarrow> int \<Rightarrow>
   error + 'a arista list \<times> int" where
  "prim_bucle grafo visitados heap mst_aristas peso_total =
     (if heap \<noteq> [] \<and> card visitados < length grafo then
        (case heappop heap of
           ((peso, nodo1, nodo2), heap1) \<Rightarrow>
             if nodo2 \<in> visitados then prim_bucle grafo visitados heap1 mst_aristas peso_total
             else
               (case map_of grafo nodo2 of
                  None \<Rightarrow> Inl KeyError
                | Some vecinos \<Rightarrow>
                    prim_bucle grafo (insert nodo2 visitados)
                      (foldl (\<lambda>h (vecino, peso_arista).
                                if vecino \<notin> insert nodo2 visitados
                                then heappush h (peso_arista, nodo2, vecino) else h)
                         heap1 vecinos)
                      (mst_aristas @ [(nodo1, nodo2, peso)]) (peso_total + peso)))
      else Inr (mst_aristas, peso_total))"
  by pat_completeness auto
termination
  apply (relation "measures [\<lambda>(grafo, visitados, heap, _). length (filter (\<lambda>k. k \<notin> visitados) (map fst grafo)),
                           \<lambda>(grafo, visitados, heap, _). length heap]")
  subgoal by simp
  subgoal by (auto dest: heappop_largo)
  subgoal for grafo visitados heap mst_aristas peso_total x1 x2 peso y nodo1 nodo2 vecinos
    using no_visitados_decrece[of grafo nodo2 vecinos visitados] by simp
  done

declare prim_bucle.simps [simp del]


text \<open>
  \<open>nodo_inicial\<close> is the optional argument (\<open>None\<close> by default). With a non-empty edge list
  the dictionary has a first key; \<open>grafo[nodo_inicial]\<close> raises when the start node is not a
  key.
\<close>

definition prim :: "'a::linorder arista list \<Rightarrow> 'a option \<Rightarrow> error + 'a arista list \<times> int" where
  "prim aristas nodo_inicial =
     (if aristas = [] then Inr ([], 0)
      else
        let grafo = construir_grafo aristas in
        case (case nodo_inicial of
                None \<Rightarrow> (case grafo of [] \<Rightarrow> Inl IndexError | (k, _) # _ \<Rightarrow> Inr k)
              | Some n \<Rightarrow> Inr n) of
          Inl e \<Rightarrow> Inl e
        | Inr inicial \<Rightarrow>
            (case map_of grafo inicial of
               None \<Rightarrow> Inl KeyError
             | Some vecinos \<Rightarrow>
                 prim_bucle grafo {inicial}
                   (foldl (\<lambda>h (vecino, peso). heappush h (peso, inicial, vecino)) [] vecinos)
                   [] 0))"

section \<open>Dijkstra (dijkstra.py, functions dijkstra and reconstruir_ruta)\<close>

text \<open>
  A recorded distance is \<open>float('inf')\<close> or an integer. The inner \<open>for\<close> loop over the
  neighbours of the popped node is \<open>relajar\<close>, the \<open>while heap\<close> loop is \<open>dijkstra_bucle\<close>.
\<close>

datatype distancia = Finita int | Infinita

fun menor_que :: "int \<Rightarrow> distancia \<Rightarrow> bool" where
  "menor_que n Infinita = True"
| "menor_que n (Finita m) = (n < m)"

fun relajar ::
  "'a set \<Rightarrow> int \<Rightarrow> 'a \<Rightarrow> ('a \<times> int) list \<Rightarrow> ('a \<rightharpoonup> distancia) \<Rightarrow> ('a \<rightharpoonup> 'a) \<Rightarrow>
   (int \<times> 'a) list \<Rightarrow> error + ('a \<rightharpoonup> distancia) \<times> ('a \<rightharpoonup> 'a) \<times> (int \<times> 'a) list" where
  "relajar visitados distancia_actual nodo_actual [] distancias predecesores heap =
     Inr (distancias, predecesores, heap)"
| "relajar visitados distancia_actual nodo_actual ((vecino, peso) # resto)
       distancias predecesores heap =
     (if vecino \<in> visitados then
        relajar visitados distancia_actual nodo_actual resto distancias predecesores heap
      else
        (let nueva_distancia = distancia_actual + peso in
         case distancias vecino of
           None \<Rightarrow> Inl KeyError
         | Some d \<Rightarrow>
             if menor_que nueva_distancia d then
               relajar visitados distancia_actual nodo_actual resto
                 (distancias(vecino \<mapsto> Finita nueva_distancia))
                 (predecesores(vecino \<mapsto> nodo_actual))
                 (heappush heap (nueva_distancia, vecino))
             else
               relajar visitados distancia_actual nodo_actual resto distancias predecesores heap))"

function dijkstra_bucle ::
  "'a::linorder grafo \<Rightarrow> ('a \<rightharpoonup> distancia) \<Rightarrow> ('a \<rightharpoonup> 'a) \<Rightarrow> 'a set \<Rightarrow> (int \<times> 'a) list \<Rightarrow>
   error + ('a \<rightharpoonup> distancia) \<times> ('a \<rightharpoonup> 'a)" where
  "dijkstra_bucle grafo distancias predecesores visitados heap =
     (if heap \<noteq> [] then
        (case heappop heap of
           ((distancia_actual, nodo_actual), heap1) \<Rightarrow>
             if nodo_actual \<in> visitados then
               dijkstra_bucle grafo distancias predecesores visitados heap1
             else
               (case map_of grafo nodo_actual of
                  None \<Rightarrow> Inl KeyError
                | Some vecinos \<Rightarrow>
                    (case relajar (insert nodo_actual visitados) distancia_actual nodo_actual
                            vecinos distancias predecesores heap1 of
                       Inl e \<Rightarrow> Inl e
                     | Inr (distancias', predecesores', heap') \<Rightarrow>
                         dijkstra_bucle grafo distancias' predecesores'
                           (insert nodo_actual visitados) heap')))
      else Inr (distancias, predecesores))"
  by pat_completeness auto
termination
  apply (relation "measures [\<lambda>(grafo, distancias, predecesores, visitados, heap).
                               length (filter (\<lambda>k. k \<notin> visitados) (map fst grafo)),
                             \<lambda>(grafo, distancias, predecesores, visitados, heap). length heap]")
  subgoal by simp
  subgoal by (auto dest: heappop_largo)
  subgoal for grafo distancias predecesores visitados heap x1 x2 distancia_actual nodo_actual vecinos
    using no_visitados_decrece[of grafo nodo_actual vecinos visitados] by simp
  done

declare dijkstra_bucle.simps [simp del]

definition dijkstra ::
  "'a::linorder arista list \<Rightarrow> 'a \<Rightarrow> error + ('a \<rightharpoonup> distancia) \<times> ('a \<rightharpoonup> 'a)" where
  "dijkstra aristas nodo_origen =
     (let grafo = construir_grafo aristas in
      if nodo_origen \<notin> fst ` set grafo then Inr (Map.empty, Map.empty)
      else
        dijkstra_bucle grafo
          ((\<lambda>nodo. if nodo \<in> fst ` set grafo then Some Infinita else None)
             (nodo_origen \<mapsto> Finita 0))
          Map.empty {} [(0, nodo_origen)])"

text \<open>
  The \<open>while\<close> loop of \<open>reconstruir_ruta\<close> follows predecessors and does not end on a
  dictionary with a cycle that misses the source: \<open>None\<close> is that case.
\<close>

partial_function (option) ruta_bucle ::
  "('a \<rightharpoonup> 'a) \<Rightarrow> 'a \<Rightarrow> 'a \<Rightarrow> 'a list \<Rightarrow> 'a list option" where
  "ruta_bucle predecesores nodo_origen nodo_actual ruta =
     (if nodo_actual \<noteq> nodo_origen then
        (case predecesores nodo_actual of
           None \<Rightarrow> Some []
         | Some p \<Rightarrow> ruta_bucle predecesores nodo_origen p (ruta @ [nodo_actual]))
      else Some (rev (ruta @ [nodo_origen])))"

declare ruta_bucle.simps [code]

definition reconstruir_ruta :: "('a \<rightharpoonup> 'a) \<Rightarrow> 'a \<Rightarrow> 'a \<Rightarrow> 'a list option" where
  "reconstruir_ruta predecesores nodo_origen nodo_destino =
     (if nodo_destino \<notin> dom predecesores \<and> nodo_destino \<noteq> nodo_origen then Some []
      else ruta_bucle predecesores nodo_origen nodo_destino [])"

section \<open>Huffman (huffman.py)\<close>

text \<open>
  \<open>NodoHuffman\<close> is one class for leaves and internal nodes: the character and the two
  children are optional fields. \<open>__lt__\<close> compares frequencies only.
\<close>

datatype 'a NodoHuffman =
  NodoHuffman (caracter: "'a option") (frecuencia: int)
    (izquierdo: "'a NodoHuffman option") (derecho: "'a NodoHuffman option")

definition nodo_lt :: "'a NodoHuffman \<Rightarrow> 'a NodoHuffman \<Rightarrow> bool" where
  "nodo_lt self otro \<longleftrightarrow> frecuencia self < frecuencia otro"

definition es_hoja :: "'a NodoHuffman \<Rightarrow> bool" where
  "es_hoja self \<longleftrightarrow> izquierdo self = None \<and> derecho self = None"

text \<open>
  \<open>calcular_frecuencias\<close> is \<open>dict(Counter(texto))\<close>: one entry per distinct character, in
  the order of first occurrence, with its number of occurrences.
\<close>

definition contar :: "('a \<times> int) list \<Rightarrow> 'a \<Rightarrow> ('a \<times> int) list" where
  "contar tabla c =
     (if c \<in> fst ` set tabla then map (\<lambda>(k, n). if k = c then (k, n + 1) else (k, n)) tabla
      else tabla @ [(c, 1)])"

definition calcular_frecuencias :: "'a list \<Rightarrow> ('a \<times> int) list" where
  "calcular_frecuencias texto = foldl contar [] texto"

subsection \<open>The binary heap of heapq on a list\<close>

text \<open>
  Nodes of equal frequency are not ordered by \<open>__lt__\<close>, so which of them \<open>heappop\<close> returns
  depends on the array layout of the heap. The functions below follow \<open>Lib/heapq.py\<close>
  (\<open>_siftdown\<close>, \<open>_siftup\<close>, \<open>heappush\<close>, \<open>heappop\<close>, \<open>heapify\<close>) on the list, with the
  comparison \<open>lt\<close> as a parameter. Inside them every index read is below the length of the
  list.
\<close>

function siftdown_bucle :: "('a \<Rightarrow> 'a \<Rightarrow> bool) \<Rightarrow> 'a list \<Rightarrow> nat \<Rightarrow> nat \<Rightarrow> 'a \<Rightarrow> 'a list" where
  "siftdown_bucle lt heap startpos pos newitem =
     (if pos > startpos then
        (let parentpos = (pos - 1) div 2;
             parent = heap ! parentpos
         in if lt newitem parent then
              siftdown_bucle lt (heap[pos := parent]) startpos parentpos newitem
            else heap[pos := newitem])
      else heap[pos := newitem])"
  by pat_completeness auto
termination
  by (relation "measure (\<lambda>(lt, heap, startpos, pos, newitem). pos)") auto

declare siftdown_bucle.simps [simp del]

definition siftdown :: "('a \<Rightarrow> 'a \<Rightarrow> bool) \<Rightarrow> 'a list \<Rightarrow> nat \<Rightarrow> nat \<Rightarrow> 'a list" where
  "siftdown lt heap startpos pos = siftdown_bucle lt heap startpos pos (heap ! pos)"

function siftup_bucle ::
  "('a \<Rightarrow> 'a \<Rightarrow> bool) \<Rightarrow> 'a list \<Rightarrow> nat \<Rightarrow> nat \<Rightarrow> nat \<Rightarrow> 'a list \<times> nat" where
  "siftup_bucle lt heap endpos pos childpos =
     (if childpos < endpos then
        (let rightpos = childpos + 1;
             childpos' = (if rightpos < endpos \<and> \<not> lt (heap ! childpos) (heap ! rightpos)
                          then rightpos else childpos)
         in siftup_bucle lt (heap[pos := heap ! childpos']) endpos childpos' (2 * childpos' + 1))
      else (heap, pos))"
  by pat_completeness auto
termination
  by (relation "measure (\<lambda>(lt, heap, endpos, pos, childpos). endpos - childpos)") auto

declare siftup_bucle.simps [simp del]

definition siftup :: "('a \<Rightarrow> 'a \<Rightarrow> bool) \<Rightarrow> 'a list \<Rightarrow> nat \<Rightarrow> 'a list" where
  "siftup lt heap pos =
     (let endpos = length heap;
          startpos = pos;
          newitem = heap ! pos
      in case siftup_bucle lt heap endpos pos (2 * pos + 1) of
           (heap', pos') \<Rightarrow> siftdown lt (heap'[pos' := newitem]) startpos pos')"

definition hq_heappush :: "('a \<Rightarrow> 'a \<Rightarrow> bool) \<Rightarrow> 'a list \<Rightarrow> 'a \<Rightarrow> 'a list" where
  "hq_heappush lt heap item = siftdown lt (heap @ [item]) 0 (length heap)"

definition hq_heappop :: "('a \<Rightarrow> 'a \<Rightarrow> bool) \<Rightarrow> 'a list \<Rightarrow> error + 'a \<times> 'a list" where
  "hq_heappop lt heap =
     (if heap = [] then Inl IndexError
      else
        let lastelt = last heap;
            heap1 = butlast heap
        in if heap1 \<noteq> [] then Inr (heap1 ! 0, siftup lt (heap1[0 := lastelt]) 0)
           else Inr (lastelt, heap1))"

definition hq_heapify :: "('a \<Rightarrow> 'a \<Rightarrow> bool) \<Rightarrow> 'a list \<Rightarrow> 'a list" where
  "hq_heapify lt x = fold (\<lambda>i heap. siftup lt heap i) (rev [0..<length x div 2]) x"

lemma siftdown_bucle_largo [simp]:
  "length (siftdown_bucle lt heap startpos pos newitem) = length heap"
  by (induction lt heap startpos pos newitem rule: siftdown_bucle.induct)
     (subst siftdown_bucle.simps, simp add: Let_def)

lemma siftup_bucle_largo [simp]:
  "length (fst (siftup_bucle lt heap endpos pos childpos)) = length heap"
  by (induction lt heap endpos pos childpos rule: siftup_bucle.induct)
     (subst siftup_bucle.simps, simp add: Let_def)

lemma siftup_bucle_largoD:
  "siftup_bucle lt heap endpos pos childpos = (h, p) \<Longrightarrow> length h = length heap"
  by (metis fst_conv siftup_bucle_largo)

lemma siftup_largo [simp]: "length (siftup lt heap pos) = length heap"
  by (auto simp: siftup_def siftdown_def Let_def split: prod.splits dest: siftup_bucle_largoD)

lemma hq_heappush_largo [simp]: "length (hq_heappush lt heap item) = Suc (length heap)"
  by (simp add: hq_heappush_def siftdown_def)

lemma hq_heappop_largo:
  "hq_heappop lt heap = Inr (x, heap') \<Longrightarrow> Suc (length heap') = length heap"
  by (cases heap rule: rev_cases) (auto simp: hq_heappop_def Let_def split: if_splits)

subsection \<open>Building the tree and the codes\<close>

function arbol_bucle :: "'a NodoHuffman list \<Rightarrow> error + 'a NodoHuffman list" where
  "arbol_bucle heap =
     (if length heap > 1 then
        (case hq_heappop nodo_lt heap of
           Inl e \<Rightarrow> Inl e
         | Inr (izq, heap1) \<Rightarrow>
             (case hq_heappop nodo_lt heap1 of
                Inl e \<Rightarrow> Inl e
              | Inr (der, heap2) \<Rightarrow>
                  arbol_bucle
                    (hq_heappush nodo_lt heap2
                       (NodoHuffman None (frecuencia izq + frecuencia der) (Some izq) (Some der)))))
      else Inr heap)"
  by pat_completeness auto
termination
  apply (relation "measure length")
  subgoal by simp
  subgoal for heap x izq heap1 xa der heap2
    using hq_heappop_largo[of nodo_lt heap izq heap1] hq_heappop_largo[of nodo_lt heap1 der heap2]
    by simp
  done

declare arbol_bucle.simps [simp del]

definition construir_arbol_huffman :: "('a \<times> int) list \<Rightarrow> error + 'a NodoHuffman option" where
  "construir_arbol_huffman frecuencias =
     (if frecuencias = [] then Inr None
      else
        case arbol_bucle
               (hq_heapify nodo_lt
                  (map (\<lambda>(char, freq). NodoHuffman (Some char) freq None None) frecuencias)) of
          Inl e \<Rightarrow> Inl e
        | Inr heap \<Rightarrow> (case heap of [] \<Rightarrow> Inr None | raiz # _ \<Rightarrow> Inr (Some raiz)))"

text \<open>
  \<open>generar_codigos\<close> fills one dictionary through the recursion: the dictionary goes in and
  comes out. A code is a string of the characters 0 and 1.

  The function calls itself once per level of the tree, and \<open>src\<close> never raises Python's
  recursion limit, so a deep tree ends in \<open>RecursionError\<close>. The argument \<open>marcos\<close> is the
  number of stack frames that the interpreter still grants when \<open>generar_codigos\<close> is
  called: the call itself takes one of them, the call \<open>raiz.es_hoja()\<close> inside it needs
  another one for its duration, and the two recursive calls run with what is left after the
  frame of the caller. The exception leaves the function at once, so nothing is returned.
\<close>

fun generar_codigos ::
  "nat \<Rightarrow> 'a NodoHuffman option \<Rightarrow> string \<Rightarrow> ('a option \<rightharpoonup> string)
     \<Rightarrow> error + ('a option \<rightharpoonup> string)" where
  "generar_codigos 0 raiz codigo codigos = Inl RecursionError"
| "generar_codigos (Suc marcos) None codigo codigos = Inr codigos"
| "generar_codigos (Suc marcos) (Some (NodoHuffman car fr izq der)) codigo codigos =
     (if marcos = 0 then Inl RecursionError
      else if izq = None \<and> der = None then
        Inr (codigos(car \<mapsto> (if codigo \<noteq> [] then codigo else ''0'')))
      else
        (case generar_codigos marcos izq (codigo @ ''0'') codigos of
           Inl e \<Rightarrow> Inl e
         | Inr codigos1 \<Rightarrow> generar_codigos marcos der (codigo @ ''1'') codigos1))"

text \<open>
  The compression statistics that \<open>ejecutar_huffman\<close> computes from the text it read
  (\<open>bits_original\<close>, \<open>bits_comprimido\<close>, \<open>tasa_compresion\<close>). The division is Python's true
  division, taken here in the reals.

  \<open>ejecutar_huffman\<close> runs under CPython's default recursion limit of 1000 frames
  (nothing in \<open>src\<close> changes it). Started from the menu of \<open>main.py\<close>, the frames of the
  module, of \<open>main\<close> and of \<open>ejecutar_huffman\<close> itself are in use when it calls
  \<open>generar_codigos\<close>: \<open>marcos_disponibles\<close> are the frames left for that call.
\<close>

definition marcos_disponibles :: nat where
  "marcos_disponibles = 1000 - 3"

fun sumar_bits :: "('a option \<rightharpoonup> string) \<Rightarrow> ('a \<times> int) list \<Rightarrow> error + int" where
  "sumar_bits codigos [] = Inr 0"
| "sumar_bits codigos ((char, freq) # resto) =
     (case codigos (Some char) of
        None \<Rightarrow> Inl KeyError
      | Some codigo \<Rightarrow>
          (case sumar_bits codigos resto of
             Inl e \<Rightarrow> Inl e
           | Inr s \<Rightarrow> Inr (int (length codigo) * freq + s)))"

definition ejecutar_huffman :: "'a list \<Rightarrow> error + int \<times> int \<times> real" where
  "ejecutar_huffman texto =
     (let frecuencias = calcular_frecuencias texto in
      case construir_arbol_huffman frecuencias of
        Inl e \<Rightarrow> Inl e
      | Inr raiz \<Rightarrow>
          (case generar_codigos marcos_disponibles raiz [] Map.empty of
             Inl e \<Rightarrow> Inl e
           | Inr codigos \<Rightarrow>
               (let bits_original = int (length texto) * 8
                in case sumar_bits codigos frecuencias of
                     Inl e \<Rightarrow> Inl e
                   | Inr bits_comprimido \<Rightarrow>
                       if bits_original = 0 then Inl ZeroDivisionError
                       else Inr (bits_original, bits_comprimido,
                                 (1 - real_of_int bits_comprimido / real_of_int bits_original) * 100))))"


section \<open>Union-Find: roots, search paths and reachable states\<close>

text \<open>
  \<open>raiz_de uf x r\<close>: following parents from \<open>x\<close> ends at the root \<open>r\<close>.
  \<open>en_camino uf x y\<close>: \<open>y\<close> is one of the nodes that the search from \<open>x\<close> traverses.
  \<open>comprimir uf x r\<close> is the state after the search from \<open>x\<close> found \<open>r\<close>; \<open>enlazar\<close> is the
  union by rank of two roots. \<open>alcanzable\<close> are the states a program can reach from the
  constructor with \<open>unir\<close> and \<open>encontrar\<close> on registered nodes; \<open>ejecutar_uniones\<close> runs a
  sequence of \<open>unir\<close> calls.
\<close>

inductive raiz_de :: "'a union_find \<Rightarrow> 'a \<Rightarrow> 'a \<Rightarrow> bool" for uf where
  raiz_aqui: "padre uf x = Some x \<Longrightarrow> raiz_de uf x x"
| raiz_sube: "padre uf x = Some p \<Longrightarrow> p \<noteq> x \<Longrightarrow> raiz_de uf p r \<Longrightarrow> raiz_de uf x r"

inductive en_camino :: "'a union_find \<Rightarrow> 'a \<Rightarrow> 'a \<Rightarrow> bool" for uf where
  camino_aqui: "en_camino uf x x"
| camino_sube: "padre uf x = Some p \<Longrightarrow> p \<noteq> x \<Longrightarrow> en_camino uf p y \<Longrightarrow> en_camino uf x y"

definition comprimir :: "'a union_find \<Rightarrow> 'a \<Rightarrow> 'a \<Rightarrow> 'a union_find" where
  "comprimir uf x r = uf\<lparr>padre := (\<lambda>y. if en_camino uf x y then Some r else padre uf y)\<rparr>"

definition uf_inv :: "'a union_find \<Rightarrow> bool" where
  "uf_inv uf \<longleftrightarrow>
     finite (dom (padre uf)) \<and> dom (rango uf) = dom (padre uf) \<and>
     (\<forall>x p. padre uf x = Some p \<longrightarrow> p \<in> dom (padre uf)) \<and>
     (\<forall>x p. padre uf x = Some p \<longrightarrow> p \<noteq> x \<longrightarrow> the (rango uf x) < the (rango uf p))"

definition enlazar :: "'a union_find \<Rightarrow> 'a \<Rightarrow> 'a \<Rightarrow> 'a union_find" where
  "enlazar uf r1 r2 =
     (let k1 = the (rango uf r1); k2 = the (rango uf r2) in
      if k1 < k2 then uf\<lparr>padre := (padre uf)(r1 \<mapsto> r2)\<rparr>
      else if k1 > k2 then uf\<lparr>padre := (padre uf)(r2 \<mapsto> r1)\<rparr>
      else uf\<lparr>padre := (padre uf)(r2 \<mapsto> r1), rango := (rango uf)(r1 \<mapsto> k1 + 1)\<rparr>)"

inductive alcanzable :: "'a union_find \<Rightarrow> bool" where
  alc_inicial: "alcanzable (UnionFind nodos)"
| alc_unir: "alcanzable uf \<Longrightarrow> x \<in> dom (padre uf) \<Longrightarrow> y \<in> dom (padre uf) \<Longrightarrow>
     unir uf x y = Some (Inr (b, uf')) \<Longrightarrow> alcanzable uf'"
| alc_encontrar: "alcanzable uf \<Longrightarrow> x \<in> dom (padre uf) \<Longrightarrow>
     encontrar uf x = Some (Inr (r, uf')) \<Longrightarrow> alcanzable uf'"

fun ejecutar_uniones :: "'a union_find \<Rightarrow> ('a \<times> 'a) list \<Rightarrow> 'a union_find option" where
  "ejecutar_uniones uf [] = Some uf"
| "ejecutar_uniones uf ((x, y) # ps) =
     (case unir uf x y of
        Some (Inr (b, uf')) \<Rightarrow> ejecutar_uniones uf' ps
      | _ \<Rightarrow> None)"

definition uf_ejemplo :: "string union_find" where
  "uf_ejemplo =
     \<lparr> padre = [''a'' \<mapsto> ''a'', ''b'' \<mapsto> ''a'', ''c'' \<mapsto> ''a'', ''d'' \<mapsto> ''c''],
       rango = [''a'' \<mapsto> 2, ''b'' \<mapsto> 0, ''c'' \<mapsto> 1, ''d'' \<mapsto> 0] \<rparr>"

lemma en_camino_raiz: "en_camino uf x y \<Longrightarrow> padre uf x = Some x \<Longrightarrow> y = x"
  by (erule en_camino.cases) auto

lemma en_camino_paso:
  "padre uf x = Some p \<Longrightarrow> p \<noteq> x \<Longrightarrow> en_camino uf x y \<longleftrightarrow> y = x \<or> en_camino uf p y"
  by (auto intro: en_camino.intros elim: en_camino.cases)

lemma raiz_de_es_raiz: "raiz_de uf x r \<Longrightarrow> padre uf r = Some r"
  by (induction rule: raiz_de.induct) auto

lemma raiz_de_determinista: "raiz_de uf x r \<Longrightarrow> raiz_de uf x s \<Longrightarrow> r = s"
proof (induction arbitrary: s rule: raiz_de.induct)
  case (raiz_aqui x)
  from raiz_aqui.prems show ?case
  proof (cases rule: raiz_de.cases)
    case raiz_aqui
    then show ?thesis by simp
  next
    case (raiz_sube q)
    with raiz_aqui.hyps show ?thesis by simp
  qed
next
  case (raiz_sube x p r)
  from raiz_sube.prems show ?case
  proof (cases rule: raiz_de.cases)
    case raiz_aqui
    with raiz_sube.hyps show ?thesis by simp
  next
    case (raiz_sube q)
    with raiz_sube.hyps(1) have "q = p" by simp
    with raiz_sube(3) show ?thesis by (simp add: raiz_sube.IH)
  qed
qed

lemma raiz_en_camino: "raiz_de uf x r \<Longrightarrow> en_camino uf x r"
  by (induction rule: raiz_de.induct) (auto intro: en_camino.intros)

lemma en_camino_trans: "en_camino uf x y \<Longrightarrow> en_camino uf y z \<Longrightarrow> en_camino uf x z"
  by (induction rule: en_camino.induct) (auto intro: en_camino.intros)

lemma en_camino_misma_raiz: "en_camino uf x y \<Longrightarrow> raiz_de uf x r \<Longrightarrow> raiz_de uf y r"
proof (induction rule: en_camino.induct)
  case (camino_aqui x)
  then show ?case by simp
next
  case (camino_sube x p y)
  from camino_sube.prems camino_sube.hyps have "raiz_de uf p r"
    by (cases rule: raiz_de.cases) auto
  then show ?case by (rule camino_sube.IH)
qed

lemma encontrar_raiz:
  "raiz_de uf x r \<Longrightarrow> encontrar uf x = Some (Inr (r, comprimir uf x r))"
proof (induction rule: raiz_de.induct)
  case (raiz_aqui x)
  have "(\<lambda>y. if en_camino uf x y then Some x else padre uf y) = padre uf"
    using raiz_aqui by (auto simp: fun_eq_iff dest: en_camino_raiz)
  then have "comprimir uf x x = uf" by (simp add: comprimir_def)
  with raiz_aqui show ?case by (subst encontrar.simps) simp
next
  case (raiz_sube x p r)
  have "(comprimir uf p r)\<lparr>padre := (padre (comprimir uf p r))(x \<mapsto> r)\<rparr> = comprimir uf x r"
    using raiz_sube.hyps(1,2) by (auto simp: comprimir_def en_camino_paso fun_eq_iff)
  with raiz_sube show ?case by (subst encontrar.simps) simp
qed

lemma tiene_raiz:
  assumes "uf_inv uf" and "x \<in> dom (padre uf)"
  shows "\<exists>r. raiz_de uf x r"
proof -
  define rk where "rk y = the (rango uf y)" for y
  define M where "M = Max (rk ` dom (padre uf))"
  have fin: "finite (rk ` dom (padre uf))" using assms(1) by (simp add: uf_inv_def)
  have le: "rk y \<le> M" if "y \<in> dom (padre uf)" for y
    unfolding M_def using fin that by (intro Max_ge) auto
  show ?thesis using assms(2)
  proof (induction "nat (M - rk x)" arbitrary: x rule: less_induct)
    case less
    from less.prems obtain p where p: "padre uf x = Some p" by auto
    show ?case
    proof (cases "p = x")
      case True
      with p show ?thesis by (auto intro: raiz_de.intros)
    next
      case False
      from assms(1) p have pd: "p \<in> dom (padre uf)" by (auto simp: uf_inv_def)
      from assms(1) p False have "rk x < rk p" by (auto simp: uf_inv_def rk_def)
      with le[OF pd] have "nat (M - rk p) < nat (M - rk x)" by simp
      from less.hyps[OF this pd] obtain r where "raiz_de uf p r" ..
      with p False show ?thesis by (auto intro: raiz_de.intros)
    qed
  qed
qed


lemma raiz_de_padre_cong: "raiz_de uf x r \<Longrightarrow> padre uf' = padre uf \<Longrightarrow> raiz_de uf' x r"
  by (induction rule: raiz_de.induct) (auto intro: raiz_de.intros)

lemma raiz_de_dom: "raiz_de uf x r \<Longrightarrow> x \<in> dom (padre uf)"
  by (auto elim: raiz_de.cases)

lemma en_camino_dom:
  "en_camino uf x y \<Longrightarrow> uf_inv uf \<Longrightarrow> x \<in> dom (padre uf) \<Longrightarrow> y \<in> dom (padre uf)"
  by (induction rule: en_camino.induct) (auto simp: uf_inv_def)

lemma rango_crece:
  "en_camino uf x y \<Longrightarrow> uf_inv uf \<Longrightarrow> x \<noteq> y \<Longrightarrow> the (rango uf x) < the (rango uf y)"
proof (induction rule: en_camino.induct)
  case (camino_aqui x)
  then show ?case by simp
next
  case (camino_sube x p y)
  from camino_sube.hyps camino_sube.prems have "the (rango uf x) < the (rango uf p)"
    by (auto simp: uf_inv_def)
  with camino_sube show ?case by (cases "p = y") auto
qed

lemma comprimir_simps [simp]:
  "padre (comprimir uf x r) y = (if en_camino uf x y then Some r else padre uf y)"
  "rango (comprimir uf x r) = rango uf"
  by (simp_all add: comprimir_def)

lemma comprimir_dom:
  assumes "uf_inv uf" "raiz_de uf x r"
  shows "dom (padre (comprimir uf x r)) = dom (padre uf)"
proof -
  have "x \<in> dom (padre uf)" using assms(2) by (rule raiz_de_dom)
  then have "y \<in> dom (padre uf)" if "en_camino uf x y" for y
    using en_camino_dom[OF that assms(1)] by simp
  then show ?thesis by (auto simp: dom_def split: if_splits)
qed

lemma comprimir_inv:
  assumes "uf_inv uf" "raiz_de uf x r"
  shows "uf_inv (comprimir uf x r)"
proof -
  have d: "dom (padre (comprimir uf x r)) = dom (padre uf)"
    using assms by (rule comprimir_dom)
  have rr: "padre uf r = Some r" using assms(2) by (rule raiz_de_es_raiz)
  have rk: "the (rango uf y) < the (rango uf r)" if "en_camino uf x y" "y \<noteq> r" for y
  proof -
    have "raiz_de uf y r" using that(1) assms(2) by (rule en_camino_misma_raiz)
    then have "en_camino uf y r" by (rule raiz_en_camino)
    then show ?thesis using assms(1) that(2) by (rule rango_crece)
  qed
  have "finite (dom (padre (comprimir uf x r)))" using assms(1) d by (simp add: uf_inv_def)
  moreover have "dom (rango (comprimir uf x r)) = dom (padre (comprimir uf x r))"
    using assms(1) d by (simp add: uf_inv_def)
  moreover have "\<forall>y p. padre (comprimir uf x r) y = Some p \<longrightarrow> p \<in> dom (padre (comprimir uf x r))"
    unfolding d using assms(1) rr by (auto simp: uf_inv_def split: if_splits)
  moreover have "\<forall>y p. padre (comprimir uf x r) y = Some p \<longrightarrow> p \<noteq> y \<longrightarrow>
      the (rango (comprimir uf x r) y) < the (rango (comprimir uf x r) p)"
    using assms(1) rk by (auto simp: uf_inv_def split: if_splits)
  ultimately show ?thesis unfolding uf_inv_def by blast
qed

lemma comprimir_raiz:
  assumes x: "raiz_de uf x r"
  shows "raiz_de uf y s \<Longrightarrow> raiz_de (comprimir uf x r) y s"
proof (induction rule: raiz_de.induct)
  case (raiz_aqui y)
  show ?case
  proof (cases "en_camino uf x y")
    case True
    then have "raiz_de uf y r" using x by (rule en_camino_misma_raiz)
    moreover have "raiz_de uf y y" using raiz_aqui by (rule raiz_de.raiz_aqui)
    ultimately have "r = y" by (rule raiz_de_determinista)
    with True show ?thesis by (auto intro: raiz_de.intros)
  next
    case False
    with raiz_aqui show ?thesis by (auto intro: raiz_de.intros)
  qed
next
  case (raiz_sube y p s)
  show ?case
  proof (cases "en_camino uf x y")
    case True
    then have yr: "raiz_de uf y r" using x by (rule en_camino_misma_raiz)
    have "raiz_de uf y s" using raiz_sube.hyps by (auto intro: raiz_de.intros)
    with yr have rs: "r = s" by (rule raiz_de_determinista)
    have rr: "padre uf r = Some r" using x by (rule raiz_de_es_raiz)
    with raiz_sube.hyps have "r \<noteq> y" by auto
    moreover have "raiz_de (comprimir uf x r) r r"
      using rr by (auto intro: raiz_de.intros)
    moreover have "padre (comprimir uf x r) y = Some r" using True by simp
    ultimately have "raiz_de (comprimir uf x r) y r"
      using raiz_de.raiz_sube[of "comprimir uf x r" y r r] by blast
    then show ?thesis using rs by simp
  next
    case False
    then have "padre (comprimir uf x r) y = Some p" using raiz_sube.hyps by simp
    then show ?thesis using raiz_sube.hyps(2) raiz_sube.IH
      by (rule raiz_de.raiz_sube)
  qed
qed

lemma comprimir_raiz_iff:
  assumes "uf_inv uf" "raiz_de uf x r"
  shows "raiz_de (comprimir uf x r) y s \<longleftrightarrow> raiz_de uf y s"
proof
  assume a: "raiz_de (comprimir uf x r) y s"
  then have "y \<in> dom (padre (comprimir uf x r))" by (rule raiz_de_dom)
  then have "y \<in> dom (padre uf)" unfolding comprimir_dom[OF assms] .
  with assms(1) have "\<exists>t. raiz_de uf y t" by (rule tiene_raiz)
  then obtain t where t: "raiz_de uf y t" ..
  have "raiz_de (comprimir uf x r) y t" using assms(2) t by (rule comprimir_raiz)
  with a have "s = t" by (rule raiz_de_determinista)
  with t show "raiz_de uf y s" by simp
next
  assume "raiz_de uf y s"
  with assms(2) show "raiz_de (comprimir uf x r) y s" by (rule comprimir_raiz)
qed


text \<open>Attaching the root \<open>b\<close> under the root \<open>a\<close>.\<close>

lemma enlazar_raiz:
  assumes a: "padre uf a = Some a" and b: "padre uf b = Some b" and ab: "a \<noteq> b"
    and p': "padre uf' = (padre uf)(b \<mapsto> a)"
  shows "raiz_de uf z s \<Longrightarrow> raiz_de uf' z (if s = b then a else s)"
proof (induction rule: raiz_de.induct)
  case (raiz_aqui z)
  have aa: "raiz_de uf' a a" using a ab p' by (auto intro: raiz_de.intros)
  show ?case
  proof (cases "z = b")
    case True
    have "padre uf' b = Some a" using p' by simp
    then have "raiz_de uf' b a" using ab aa by (rule raiz_de.raiz_sube)
    with True show ?thesis by simp
  next
    case False
    then have "padre uf' z = Some z" using raiz_aqui p' by simp
    then have "raiz_de uf' z z" by (rule raiz_de.raiz_aqui)
    with False show ?thesis by simp
  qed
next
  case (raiz_sube z p s)
  have "z \<noteq> b" using raiz_sube.hyps b by auto
  then have "padre uf' z = Some p" using raiz_sube.hyps p' by simp
  then show ?case using raiz_sube.hyps(2) raiz_sube.IH by (rule raiz_de.raiz_sube)
qed

lemma enlazar_inv:
  assumes inv: "uf_inv uf" and a: "padre uf a = Some a" and b: "padre uf b = Some b"
    and ab: "a \<noteq> b"
    and p': "padre uf' = (padre uf)(b \<mapsto> a)"
    and d': "dom (rango uf') = dom (rango uf)"
    and rb: "the (rango uf' b) < the (rango uf' a)"
    and ro: "\<forall>x. x \<noteq> a \<longrightarrow> rango uf' x = rango uf x"
    and ra: "the (rango uf a) \<le> the (rango uf' a)"
  shows "uf_inv uf'"
proof -
  have d: "dom (padre uf') = dom (padre uf)" using p' b by auto
  have 1: "finite (dom (padre uf'))" using inv d by (simp add: uf_inv_def)
  have 2: "dom (rango uf') = dom (padre uf')" using inv d d' by (simp add: uf_inv_def)
  have 3: "p \<in> dom (padre uf')" if "padre uf' x = Some p" for x p
  proof (cases "x = b")
    case True
    with that p' have "p = a" by simp
    with a d show ?thesis by auto
  next
    case False
    with that p' have "padre uf x = Some p" by simp
    with inv have "p \<in> dom (padre uf)" unfolding uf_inv_def by blast
    with d show ?thesis by simp
  qed
  have 4: "the (rango uf' x) < the (rango uf' p)" if "padre uf' x = Some p" "p \<noteq> x" for x p
  proof (cases "x = b")
    case True
    with that p' have "p = a" by simp
    with True rb show ?thesis by simp
  next
    case False
    with that p' have px: "padre uf x = Some p" by simp
    with inv that(2) have lt: "the (rango uf x) < the (rango uf p)"
      unfolding uf_inv_def by blast
    from px that(2) a have xa: "x \<noteq> a" by auto
    show ?thesis
    proof (cases "p = a")
      case True
      with lt ra xa ro show ?thesis by simp
    next
      case False
      with lt xa ro show ?thesis by simp
    qed
  qed
  show ?thesis unfolding uf_inv_def using 1 2 3 4 by blast
qed


lemma enlazar_padre:
  "padre (enlazar uf r1 r2) =
     (if the (rango uf r1) < the (rango uf r2) then (padre uf)(r1 \<mapsto> r2)
      else (padre uf)(r2 \<mapsto> r1))"
  by (simp add: enlazar_def Let_def)

lemma enlazar_uf_inv:
  assumes inv: "uf_inv uf" and r1: "padre uf r1 = Some r1" and r2: "padre uf r2 = Some r2"
    and ne: "r1 \<noteq> r2"
  shows "uf_inv (enlazar uf r1 r2)"
proof -
  have dr: "r1 \<in> dom (rango uf)" "r2 \<in> dom (rango uf)"
    using inv r1 r2 by (auto simp: uf_inv_def)
  consider (lt) "the (rango uf r1) < the (rango uf r2)"
    | (gt) "the (rango uf r1) > the (rango uf r2)"
    | (eq) "the (rango uf r1) = the (rango uf r2)" by linarith
  then show ?thesis
  proof cases
    case lt
    show ?thesis
      by (rule enlazar_inv[OF inv r2 r1, where uf' = "enlazar uf r1 r2"])
         (use lt ne in \<open>auto simp: enlazar_def Let_def\<close>)
  next
    case gt
    show ?thesis
      by (rule enlazar_inv[OF inv r1 r2, where uf' = "enlazar uf r1 r2"])
         (use gt ne in \<open>auto simp: enlazar_def Let_def\<close>)
  next
    case eq
    show ?thesis
      by (rule enlazar_inv[OF inv r1 r2, where uf' = "enlazar uf r1 r2"])
         (use eq ne dr in \<open>auto simp: enlazar_def Let_def\<close>)
  qed
qed

lemma unir_raices:
  assumes inv: "uf_inv uf" and x: "raiz_de uf x r1" and y: "raiz_de uf y r2"
  shows "unir uf x y =
     Some (Inr (r1 \<noteq> r2,
       if r1 = r2 then comprimir (comprimir uf x r1) y r2
       else enlazar (comprimir (comprimir uf x r1) y r2) r1 r2))"
proof -
  let ?c1 = "comprimir uf x r1"
  let ?c2 = "comprimir ?c1 y r2"
  have e1: "encontrar uf x = Some (Inr (r1, ?c1))" using x by (rule encontrar_raiz)
  have y1: "raiz_de ?c1 y r2" using x y by (rule comprimir_raiz)
  then have e2: "encontrar ?c1 y = Some (Inr (r2, ?c2))" by (rule encontrar_raiz)
  have "r1 \<in> dom (padre uf)" "r2 \<in> dom (padre uf)"
    using raiz_de_es_raiz[OF x] raiz_de_es_raiz[OF y] by auto
  then have "r1 \<in> dom (rango uf)" "r2 \<in> dom (rango uf)"
    using inv by (auto simp: uf_inv_def)
  then obtain k1 k2 where k: "rango uf r1 = Some k1" "rango uf r2 = Some k2" by auto
  show ?thesis
    unfolding unir_def e1 using e2 k
    by (auto simp: enlazar_def Let_def)
qed


lemma UnionFind_inv: "uf_inv (UnionFind nodos)"
  by (auto simp: uf_inv_def UnionFind_def dom_def split: if_splits)

lemma unir_inv:
  assumes inv: "uf_inv uf" and x: "x \<in> dom (padre uf)" and y: "y \<in> dom (padre uf)"
    and u: "unir uf x y = Some (Inr (b, uf'))"
  shows "uf_inv uf'"
proof -
  from tiene_raiz[OF inv x] obtain r1 where r1: "raiz_de uf x r1" ..
  from tiene_raiz[OF inv y] obtain r2 where r2: "raiz_de uf y r2" ..
  let ?c1 = "comprimir uf x r1"
  let ?c2 = "comprimir ?c1 y r2"
  have i1: "uf_inv ?c1" using inv r1 by (rule comprimir_inv)
  have y1: "raiz_de ?c1 y r2" using r1 r2 by (rule comprimir_raiz)
  have i2: "uf_inv ?c2" using i1 y1 by (rule comprimir_inv)
  have p1: "padre ?c2 r1 = Some r1"
    using comprimir_raiz[OF y1 comprimir_raiz[OF r1 raiz_de.raiz_aqui[OF raiz_de_es_raiz[OF r1]]]]
    by (rule raiz_de_es_raiz)
  have p2: "padre ?c2 r2 = Some r2"
    using comprimir_raiz[OF y1 y1] by (rule raiz_de_es_raiz)
  show ?thesis
  proof (cases "r1 = r2")
    case True
    with u unir_raices[OF inv r1 r2] i2 show ?thesis by simp
  next
    case False
    with u unir_raices[OF inv r1 r2] have "uf' = enlazar ?c2 r1 r2" by simp
    with enlazar_uf_inv[OF i2 p1 p2 False] show ?thesis by simp
  qed
qed

lemma encontrar_inv:
  assumes inv: "uf_inv uf" and x: "x \<in> dom (padre uf)"
    and u: "encontrar uf x = Some (Inr (r, uf'))"
  shows "uf_inv uf'"
proof -
  from tiene_raiz[OF inv x] obtain r1 where r1: "raiz_de uf x r1" ..
  have e: "encontrar uf x = Some (Inr (r1, comprimir uf x r1))" using r1 by (rule encontrar_raiz)
  have "uf' = comprimir uf x r1" using u unfolding e by auto
  with comprimir_inv[OF inv r1] show ?thesis by blast
qed

lemma alcanzable_inv: "alcanzable uf \<Longrightarrow> uf_inv uf"
  by (induction rule: alcanzable.induct) (auto intro: UnionFind_inv unir_inv encontrar_inv)

lemma enlazar_dom:
  "padre uf r1 = Some r1 \<Longrightarrow> padre uf r2 = Some r2 \<Longrightarrow>
   dom (padre (enlazar uf r1 r2)) = dom (padre uf)"
  by (auto simp: enlazar_padre split: if_splits)

lemma unir_dom:
  assumes inv: "uf_inv uf" and x: "x \<in> dom (padre uf)" and y: "y \<in> dom (padre uf)"
    and u: "unir uf x y = Some (Inr (b, uf'))"
  shows "dom (padre uf') = dom (padre uf)"
proof -
  from tiene_raiz[OF inv x] obtain r1 where r1: "raiz_de uf x r1" ..
  from tiene_raiz[OF inv y] obtain r2 where r2: "raiz_de uf y r2" ..
  let ?c1 = "comprimir uf x r1"
  let ?c2 = "comprimir ?c1 y r2"
  have i1: "uf_inv ?c1" using inv r1 by (rule comprimir_inv)
  have y1: "raiz_de ?c1 y r2" using r1 r2 by (rule comprimir_raiz)
  have d2: "dom (padre ?c2) = dom (padre uf)"
    using comprimir_dom[OF i1 y1] comprimir_dom[OF inv r1] by simp
  have p1: "padre ?c2 r1 = Some r1"
    using comprimir_raiz[OF y1 comprimir_raiz[OF r1 raiz_de.raiz_aqui[OF raiz_de_es_raiz[OF r1]]]]
    by (rule raiz_de_es_raiz)
  have p2: "padre ?c2 r2 = Some r2"
    using comprimir_raiz[OF y1 y1] by (rule raiz_de_es_raiz)
  show ?thesis
  proof (cases "r1 = r2")
    case True
    with u unir_raices[OF inv r1 r2] have "uf' = ?c2" by simp
    with d2 show ?thesis by simp
  next
    case False
    with u unir_raices[OF inv r1 r2] have "uf' = enlazar ?c2 r1 r2" by simp
    with enlazar_dom[OF p1 p2] d2 show ?thesis by simp
  qed
qed

lemma ejecutar_uniones_alcanzable:
  "alcanzable uf \<Longrightarrow> \<forall>(x, y) \<in> set ps. x \<in> dom (padre uf) \<and> y \<in> dom (padre uf) \<Longrightarrow>
   ejecutar_uniones uf ps = Some uf' \<Longrightarrow> alcanzable uf'"
proof (induction ps arbitrary: uf)
  case Nil
  then show ?case by simp
next
  case (Cons p ps)
  obtain x y where p: "p = (x, y)" by (cases p)
  from Cons.prems(3) p obtain b uf1 where u: "unir uf x y = Some (Inr (b, uf1))"
    and e: "ejecutar_uniones uf1 ps = Some uf'"
    by (auto split: option.splits sum.splits)
  have xd: "x \<in> dom (padre uf)" and yd: "y \<in> dom (padre uf)" using Cons.prems(2) p by auto
  have a1: "alcanzable uf1" using Cons.prems(1) xd yd u by (rule alc_unir)
  have "dom (padre uf1) = dom (padre uf)"
    using alcanzable_inv[OF Cons.prems(1)] xd yd u by (rule unir_dom)
  with Cons.prems(2) have "\<forall>(x, y) \<in> set ps. x \<in> dom (padre uf1) \<and> y \<in> dom (padre uf1)"
    by auto
  with a1 show ?case using e by (rule Cons.IH)
qed

lemma padre_aciclico:
  assumes "uf_inv uf"
  shows "acyclic {(y, p). padre uf y = Some p \<and> p \<noteq> y}"
proof -
  let ?R = "{(y, p). padre uf y = Some p \<and> p \<noteq> y}"
  have "the (rango uf a) < the (rango uf b)" if "(a, b) \<in> ?R\<^sup>+" for a b
    using that
  proof (induction rule: trancl.induct)
    case (r_into_trancl a b)
    with assms show ?case by (auto simp: uf_inv_def)
  next
    case (trancl_into_trancl a b c)
    from trancl_into_trancl.hyps(2) assms have "the (rango uf b) < the (rango uf c)"
      by (auto simp: uf_inv_def)
    with trancl_into_trancl.IH show ?case by simp
  qed
  then show ?thesis unfolding acyclic_def by fastforce
qed

lemma camino_tras_comprimir:
  assumes x: "raiz_de uf x r"
  shows "en_camino (comprimir uf x r) y z \<or> en_camino uf x z \<longleftrightarrow>
         en_camino uf y z \<or> en_camino uf x z"
proof -
  have rr: "padre uf r = Some r" using x by (rule raiz_de_es_raiz)
  have xr: "en_camino uf x r" using x by (rule raiz_en_camino)
  have 1: "en_camino uf y z \<or> en_camino uf x z" if "en_camino (comprimir uf x r) y z"
    using that
  proof (induction rule: en_camino.induct)
    case (camino_aqui y)
    show ?case by (auto intro: en_camino.intros)
  next
    case (camino_sube y p z)
    show ?case
    proof (cases "en_camino uf x y")
      case True
      with camino_sube.hyps(1) have "p = r" by simp
      moreover have "padre (comprimir uf x r) r = Some r" using rr by simp
      ultimately have "z = r" using camino_sube.hyps(3) en_camino_raiz by fastforce
      with xr show ?thesis by simp
    next
      case False
      with camino_sube.hyps(1) have "padre uf y = Some p" by simp
      with camino_sube.hyps(2) camino_sube.IH show ?thesis
        by (auto intro: en_camino.camino_sube)
    qed
  qed
  have 2: "en_camino (comprimir uf x r) y z \<or> en_camino uf x z" if "en_camino uf y z"
    using that
  proof (induction rule: en_camino.induct)
    case (camino_aqui y)
    show ?case by (auto intro: en_camino.intros)
  next
    case (camino_sube y p z)
    show ?case
    proof (cases "en_camino uf x y")
      case True
      have "en_camino uf y z" using camino_sube.hyps by (auto intro: en_camino.camino_sube)
      with True have "en_camino uf x z" by (rule en_camino_trans)
      then show ?thesis by simp
    next
      case False
      with camino_sube.hyps(1) have "padre (comprimir uf x r) y = Some p" by simp
      with camino_sube.hyps(2) camino_sube.IH show ?thesis
        by (auto intro: en_camino.camino_sube)
    qed
  qed
  from 1 2 show ?thesis by blast
qed

subsection \<open>An example state\<close>

text \<open>
  Four nodes after \<open>unir(a, b)\<close>, \<open>unir(c, d)\<close>, \<open>unir(a, c)\<close>: the parent of \<open>d\<close> is \<open>c\<close> and
  the parent of \<open>c\<close> is the root \<open>a\<close>.
\<close>

lemma uf_ejemplo_uniones:
  "ejecutar_uniones (UnionFind [''a'', ''b'', ''c'', ''d''])
     [(''a'', ''b''), (''c'', ''d''), (''a'', ''c'')] = Some uf_ejemplo"
  by (simp add: uf_ejemplo_def UnionFind_def unir_def encontrar.simps fun_eq_iff)

lemma uf_ejemplo_alcanzable: "alcanzable uf_ejemplo"
proof (rule ejecutar_uniones_alcanzable[OF alc_inicial _ uf_ejemplo_uniones])
  show "\<forall>(x, y)\<in>set [(''a'', ''b''), (''c'', ''d''), (''a'', ''c'')].
          x \<in> dom (padre (UnionFind [''a'', ''b'', ''c'', ''d''])) \<and>
          y \<in> dom (padre (UnionFind [''a'', ''b'', ''c'', ''d'']))"
    by (simp add: UnionFind_def dom_def)
qed

lemma uf_ejemplo_raices:
  "raiz_de uf_ejemplo ''a'' ''a''" "raiz_de uf_ejemplo ''b'' ''a''"
  "raiz_de uf_ejemplo ''c'' ''a''" "raiz_de uf_ejemplo ''d'' ''a''"
proof -
  show a: "raiz_de uf_ejemplo ''a'' ''a''"
    by (rule raiz_aqui) (simp add: uf_ejemplo_def)
  show "raiz_de uf_ejemplo ''b'' ''a''"
    by (rule raiz_sube[OF _ _ a]) (simp_all add: uf_ejemplo_def)
  show c: "raiz_de uf_ejemplo ''c'' ''a''"
    by (rule raiz_sube[OF _ _ a]) (simp_all add: uf_ejemplo_def)
  show "raiz_de uf_ejemplo ''d'' ''a''"
    by (rule raiz_sube[OF _ _ c]) (simp_all add: uf_ejemplo_def)
qed

subsection \<open>Claim C4: find terminates and compresses the search path\<close>

text \<open>
  C4. In every Union-Find state reached from construction by \<open>unir\<close> and \<open>encontrar\<close> calls on
  registered nodes, the parent dictionary has no cycle (apart from the self loops of the
  roots), and \<open>encontrar\<close> on a registered node returns: it raises nothing, gives a root, and
  afterwards every node on the search path has that root as its parent; the other parent
  entries and all ranks are as before.
\<close>

theorem encontrar_termina_y_comprime:
  assumes "alcanzable uf" and "x \<in> dom (padre uf)"
  shows "acyclic {(y, p). padre uf y = Some p \<and> p \<noteq> y} \<and>
         (\<exists>r uf'. encontrar uf x = Some (Inr (r, uf')) \<and> padre uf r = Some r \<and>
            (\<forall>y. en_camino uf x y \<longrightarrow> padre uf' y = Some r) \<and>
            (\<forall>y. \<not> en_camino uf x y \<longrightarrow> padre uf' y = padre uf y) \<and>
            rango uf' = rango uf)"
proof -
  have inv: "uf_inv uf" using assms(1) by (rule alcanzable_inv)
  from tiene_raiz[OF inv assms(2)] obtain r where r: "raiz_de uf x r" ..
  have "encontrar uf x = Some (Inr (r, comprimir uf x r))" using r by (rule encontrar_raiz)
  moreover have "padre uf r = Some r" using r by (rule raiz_de_es_raiz)
  ultimately show ?thesis using padre_aciclico[OF inv] by simp
qed

theorem encontrar_termina_y_comprime_witness:
  "alcanzable uf_ejemplo \<and> ''d'' \<in> dom (padre uf_ejemplo) \<and>
   acyclic {(y, p). padre uf_ejemplo y = Some p \<and> p \<noteq> y} \<and>
   (\<exists>r uf'. encontrar uf_ejemplo ''d'' = Some (Inr (r, uf')) \<and> padre uf_ejemplo r = Some r \<and>
      (\<forall>y. en_camino uf_ejemplo ''d'' y \<longrightarrow> padre uf' y = Some r) \<and>
      (\<forall>y. \<not> en_camino uf_ejemplo ''d'' y \<longrightarrow> padre uf' y = padre uf_ejemplo y) \<and>
      rango uf' = rango uf_ejemplo)"
proof -
  have d: "''d'' \<in> dom (padre uf_ejemplo)" by (simp add: uf_ejemplo_def)
  show ?thesis
    using uf_ejemplo_alcanzable d encontrar_termina_y_comprime[OF uf_ejemplo_alcanzable d]
    by blast
qed

subsection \<open>Claim C3: union of two nodes of one set\<close>

text \<open>
  C3, as the code has it. \<open>unir\<close> first calls \<open>encontrar\<close> on both nodes, and \<open>encontrar\<close>
  compresses paths, so a call on two nodes of one set can change the parent dictionary. In
  every reachable state, when \<open>x\<close> and \<open>y\<close> have the same root \<open>r\<close>, \<open>unir x y\<close> returns
  \<open>False\<close>, the rank dictionary is exactly as before, every node has the same root as before,
  and the parent dictionary changes only by path compression: the nodes on the search paths
  of \<open>x\<close> and \<open>y\<close> get \<open>r\<close> as parent, every other entry is as before.
\<close>

theorem unir_mismo_conjunto:
  assumes "alcanzable uf" and "raiz_de uf x r" and "raiz_de uf y r"
  shows "\<exists>uf'. unir uf x y = Some (Inr (False, uf')) \<and> rango uf' = rango uf \<and>
           (\<forall>z. padre uf' z =
                 (if en_camino uf x z \<or> en_camino uf y z then Some r else padre uf z)) \<and>
           (\<forall>z s. raiz_de uf' z s = raiz_de uf z s)"
proof -
  have inv: "uf_inv uf" using assms(1) by (rule alcanzable_inv)
  let ?c1 = "comprimir uf x r"
  let ?c2 = "comprimir ?c1 y r"
  have u: "unir uf x y = Some (Inr (False, ?c2))"
    using unir_raices[OF inv assms(2,3)] by simp
  have i1: "uf_inv ?c1" using inv assms(2) by (rule comprimir_inv)
  have y1: "raiz_de ?c1 y r" using assms(2,3) by (rule comprimir_raiz)
  have "raiz_de ?c2 z s = raiz_de uf z s" for z s
    using comprimir_raiz_iff[OF i1 y1] comprimir_raiz_iff[OF inv assms(2)] by simp
  moreover have "padre ?c2 z =
      (if en_camino uf x z \<or> en_camino uf y z then Some r else padre uf z)" for z
    using camino_tras_comprimir[OF assms(2), of y z] by auto
  ultimately show ?thesis using u by simp
qed

theorem unir_mismo_conjunto_witness:
  "alcanzable uf_ejemplo \<and> raiz_de uf_ejemplo ''d'' ''a'' \<and> raiz_de uf_ejemplo ''b'' ''a'' \<and>
   (\<exists>uf'. unir uf_ejemplo ''d'' ''b'' = Some (Inr (False, uf')) \<and>
      rango uf' = rango uf_ejemplo \<and>
      (\<forall>z. padre uf' z =
            (if en_camino uf_ejemplo ''d'' z \<or> en_camino uf_ejemplo ''b'' z then Some ''a''
             else padre uf_ejemplo z)) \<and>
      (\<forall>z s. raiz_de uf' z s = raiz_de uf_ejemplo z s))"
  using uf_ejemplo_alcanzable uf_ejemplo_raices(4) uf_ejemplo_raices(2)
    unir_mismo_conjunto[OF uf_ejemplo_alcanzable uf_ejemplo_raices(4) uf_ejemplo_raices(2)]
  by blast

text \<open>
  C3 as stated fails: in the example state, reached by three \<open>unir\<close> calls, \<open>d\<close> and \<open>a\<close> have
  the root \<open>a\<close>; \<open>unir d a\<close> returns \<open>False\<close>, and the parent of \<open>d\<close>, which was \<open>c\<close>, is \<open>a\<close>
  afterwards.
\<close>

theorem unir_mismo_conjunto_cambia_padre:
  "ejecutar_uniones (UnionFind [''a'', ''b'', ''c'', ''d''])
     [(''a'', ''b''), (''c'', ''d''), (''a'', ''c'')] = Some uf_ejemplo \<and>
   raiz_de uf_ejemplo ''d'' ''a'' \<and> raiz_de uf_ejemplo ''a'' ''a'' \<and>
   padre uf_ejemplo ''d'' = Some ''c'' \<and>
   map_option (map_sum id (\<lambda>(unidos, uf'). (unidos, padre uf' ''d'')))
     (unir uf_ejemplo ''d'' ''a'') = Some (Inr (False, Some ''a''))"
proof -
  have "map_option (map_sum id (\<lambda>(unidos, uf'). (unidos, padre uf' ''d'')))
     (unir uf_ejemplo ''d'' ''a'') = Some (Inr (False, Some ''a''))"
    by (simp add: uf_ejemplo_def unir_def encontrar.simps)
  moreover have "padre uf_ejemplo ''d'' = Some ''c''" by (simp add: uf_ejemplo_def)
  ultimately show ?thesis using uf_ejemplo_uniones uf_ejemplo_raices(1,4) by simp
qed


section \<open>The adjacency dictionary that the engines build\<close>

text \<open>
  \<open>vecinos_de aristas k\<close> is the neighbour list that the construction loop leaves under the
  key \<open>k\<close>: one entry per end of an edge at \<open>k\<close>, in the order of the edge list. The keys of
  the dictionary are the end points of the edges.
\<close>


definition aristas_ejemplo :: "string arista list" where
  "aristas_ejemplo = [(''A'', ''B'', 1), (''B'', ''C'', 2), (''A'', ''C'', 4)]"

definition vecinos_de :: "'a arista list \<Rightarrow> 'a \<Rightarrow> ('a \<times> int) list" where
  "vecinos_de aristas k =
     concat (map (\<lambda>(a, b, w). (if a = k then [(b, w)] else []) @ (if b = k then [(a, w)] else []))
                 aristas)"

lemma asegurar_claves [simp]: "fst ` set (asegurar n g) = insert n (fst ` set g)"
  by (auto simp: asegurar_def)

lemma agregar_vecino_claves [simp]: "map fst (agregar_vecino n x g) = map fst g"
  by (induction g) (auto simp: agregar_vecino_def)

lemma asegurar_distinct: "distinct (map fst g) \<Longrightarrow> distinct (map fst (asegurar n g))"
  by (auto simp: asegurar_def)

lemma asegurar_map_of:
  "map_of (asegurar n g) k = (if k = n \<and> n \<notin> fst ` set g then Some [] else map_of g k)"
proof (cases "n \<in> fst ` set g")
  case True
  then show ?thesis by (simp add: asegurar_def)
next
  case False
  then have "map_of g n = None" by (simp add: map_of_eq_None_iff)
  with False show ?thesis by (auto simp: asegurar_def map_add_def split: option.splits)
qed

lemma agregar_vecino_map_of:
  "map_of (agregar_vecino n x g) k =
     (if k = n then map_option (\<lambda>vs. vs @ [x]) (map_of g k) else map_of g k)"
  by (induction g) (auto simp: agregar_vecino_def)

lemma nodos_de_conj: "set (nodos_de es) = (\<Union>(a, b, w) \<in> set es. {a, b})"
  by (auto simp: nodos_de_def)

lemma nodos_de_Cons:
  "set (nodos_de ((a, b, w) # es)) = insert a (insert b (set (nodos_de es)))"
  by (auto simp: nodos_de_conj)

lemma construir_desde_claves:
  "fst ` set (construir_desde g es) = fst ` set g \<union> set (nodos_de es)"
proof (induction es arbitrary: g)
  case Nil
  show ?case by (simp add: nodos_de_def)
next
  case (Cons e es)
  obtain a b w where e: "e = (a, b, w)" by (cases e)
  have "fst ` set (agregar_vecino b (a, w) (agregar_vecino a (b, w) (asegurar b (asegurar a g))))
      = insert a (insert b (fst ` set g))"
    using agregar_vecino_claves[of b "(a, w)" "agregar_vecino a (b, w) (asegurar b (asegurar a g))"]
    by (metis (no_types, lifting) agregar_vecino_claves asegurar_claves insert_commute list.set_map)
  then show ?case unfolding e by (simp add: Cons.IH nodos_de_Cons)
qed

lemma construir_desde_distinct:
  "distinct (map fst g) \<Longrightarrow> distinct (map fst (construir_desde g es))"
proof (induction es arbitrary: g)
  case Nil
  then show ?case by simp
next
  case (Cons e es)
  obtain a b w where e: "e = (a, b, w)" by (cases e)
  show ?case unfolding e using Cons.prems
    by (auto intro!: Cons.IH asegurar_distinct)
qed

lemma construir_desde_map_of:
  "k \<in> fst ` set g \<union> set (nodos_de es) \<Longrightarrow>
   map_of (construir_desde g es) k =
     Some ((case map_of g k of None \<Rightarrow> [] | Some vs \<Rightarrow> vs) @ vecinos_de es k)"
proof (induction es arbitrary: g)
  case Nil
  then have "k \<in> fst ` set g" by (simp add: nodos_de_conj)
  then have "map_of g k \<noteq> None" by (simp add: map_of_eq_None_iff)
  then show ?case by (auto simp: vecinos_de_def)
next
  case (Cons e es)
  obtain a b w where e: "e = (a, b, w)" by (cases e)
  let ?g = "agregar_vecino b (a, w) (agregar_vecino a (b, w) (asegurar b (asegurar a g)))"
  have keys: "fst ` set ?g = insert a (insert b (fst ` set g))"
    by (metis (no_types, lifting) agregar_vecino_claves asegurar_claves insert_commute list.set_map)
  have k: "k \<in> fst ` set ?g \<union> set (nodos_de es)"
    using Cons.prems unfolding e keys by (auto simp: nodos_de_Cons)
  have m: "(case map_of ?g k of None \<Rightarrow> [] | Some vs \<Rightarrow> vs) =
           (case map_of g k of None \<Rightarrow> [] | Some vs \<Rightarrow> vs) @
           (if a = k then [(b, w)] else []) @ (if b = k then [(a, w)] else [])"
  proof (cases "map_of g k")
    case None
    then have "k \<notin> fst ` set g" by (simp add: map_of_eq_None_iff)
    with None show ?thesis
      by (auto simp: agregar_vecino_map_of asegurar_map_of)
  next
    case (Some vs)
    then have "k \<in> fst ` set g" by (metis map_of_eq_None_iff option.distinct(1))
    with Some show ?thesis
      by (auto simp: agregar_vecino_map_of asegurar_map_of)
  qed
  show ?case unfolding e construir_desde.simps Cons.IH[OF k] m
    by (simp add: vecinos_de_def)
qed

lemma construir_grafo_claves: "fst ` set (construir_grafo es) = set (nodos_de es)"
  by (simp add: construir_grafo_def construir_desde_claves)

lemma construir_grafo_distinct: "distinct (map fst (construir_grafo es))"
  by (simp add: construir_grafo_def construir_desde_distinct)

lemma construir_grafo_map_of:
  "map_of (construir_grafo es) k = (if k \<in> set (nodos_de es) then Some (vecinos_de es k) else None)"
proof (cases "k \<in> set (nodos_de es)")
  case True
  then show ?thesis
    using construir_desde_map_of[of k "[]" es] by (simp add: construir_grafo_def)
next
  case False
  then have "k \<notin> fst ` set (construir_grafo es)" by (simp add: construir_grafo_claves)
  then have "map_of (construir_grafo es) k = None" by (simp add: map_of_eq_None_iff)
  with False show ?thesis by simp
qed


section \<open>Claim C5: Dijkstra from a source that is not in the graph\<close>

text \<open>
  C5. When the source is not an end point of any edge of the list, \<open>dijkstra\<close> returns the
  pair of empty dictionaries; the test comes before the distances are initialised and
  before the loop.
\<close>

theorem dijkstra_origen_ausente:
  "nodo_origen \<notin> set (nodos_de aristas) \<Longrightarrow>
   dijkstra aristas nodo_origen = Inr (Map.empty, Map.empty)"
  by (simp add: dijkstra_def Let_def construir_grafo_claves)

theorem dijkstra_origen_ausente_witness:
  "''Z'' \<notin> set (nodos_de [(''A'', ''B'', 1), (''B'', ''C'', 2)]) \<and>
   dijkstra [(''A'', ''B'', 1), (''B'', ''C'', 2)] ''Z'' = Inr (Map.empty, Map.empty)"
proof -
  have h: "''Z'' \<notin> set (nodos_de [(''A'', ''B'', 1), (''B'', ''C'', 2)])"
    by (simp add: nodos_de_def)
  show ?thesis using h dijkstra_origen_ausente[OF h] by simp
qed

section \<open>Claim C10: Prim from a start node that is not in the graph\<close>

text \<open>
  C10. \<open>prim\<close> reads \<open>grafo[nodo_inicial]\<close> without testing that the start node is a key
  (\<open>dijkstra\<close> tests its source). With the edge list \<open>[(A, B, 1)]\<close> and the start node \<open>Z\<close>
  the subscript raises \<open>KeyError\<close>: the call does not return a result.
\<close>

theorem prim_inicio_ausente_KeyError:
  "prim [(''A'', ''B'', 1)] (Some ''Z'') = Inl KeyError"
  by (simp add: prim_def construir_grafo_def asegurar_def agregar_vecino_def)

text \<open>The same holds for every non-empty edge list and every start node outside it.\<close>

lemma prim_inicio_ausente:
  "aristas \<noteq> [] \<Longrightarrow> n \<notin> set (nodos_de aristas) \<Longrightarrow> prim aristas (Some n) = Inl KeyError"
  by (simp add: prim_def Let_def construir_grafo_map_of)


section \<open>Huffman: the frequency table and the compression ratio\<close>

lemma contar_claves:
  "map fst (contar tabla c) = (if c \<in> fst ` set tabla then map fst tabla else map fst tabla @ [c])"
  by (auto simp: contar_def case_prod_unfold comp_def intro!: map_cong)

lemma contar_distinct: "distinct (map fst tabla) \<Longrightarrow> distinct (map fst (contar tabla c))"
  by (simp add: contar_claves)

lemma incrementar_suma:
  "distinct (map fst tabla) \<Longrightarrow> c \<in> fst ` set tabla \<Longrightarrow>
   sum_list (map snd (map (\<lambda>(k, n). if k = c then (k, n + 1) else (k, n)) tabla))
     = sum_list (map snd tabla) + (1::int)"
proof (induction tabla)
  case Nil
  then show ?case by simp
next
  case (Cons e tabla)
  obtain k n where e: "e = (k, n)" by (cases e)
  show ?case
  proof (cases "k = c")
    case True
    with Cons.prems e have "c \<notin> fst ` set tabla" by auto
    then have "map (\<lambda>(k, n). if k = c then (k, n + 1) else (k, n)) tabla = tabla"
      by (induction tabla) auto
    with True e show ?thesis by simp
  next
    case False
    with Cons e show ?thesis by auto
  qed
qed

lemma contar_suma:
  "distinct (map fst tabla) \<Longrightarrow> sum_list (map snd (contar tabla c)) = sum_list (map snd tabla) + 1"
  by (cases "c \<in> fst ` set tabla") (simp_all add: contar_def incrementar_suma del: map_map)

lemma foldl_contar:
  "distinct (map fst tabla) \<Longrightarrow>
   distinct (map fst (foldl contar tabla texto)) \<and>
   sum_list (map snd (foldl contar tabla texto)) = sum_list (map snd tabla) + int (length texto)"
proof (induction texto arbitrary: tabla)
  case Nil
  then show ?case by simp
next
  case (Cons c texto)
  have "distinct (map fst (contar tabla c))" using Cons.prems by (rule contar_distinct)
  from Cons.IH[OF this] contar_suma[OF Cons.prems, of c] show ?case by simp
qed

lemma calcular_frecuencias_suma:
  "sum_list (map snd (calcular_frecuencias texto)) = int (length texto)"
  using foldl_contar[of "[]" texto] by (simp add: calcular_frecuencias_def)

lemma calcular_frecuencias_distinct: "distinct (map fst (calcular_frecuencias texto))"
  using foldl_contar[of "[]" texto] by (simp add: calcular_frecuencias_def)

lemma arbol_dos_simbolos:
  "construir_arbol_huffman [(a, f), (b, f)] =
     Inr (Some (NodoHuffman None (f + f)
                  (Some (NodoHuffman (Some b) f None None))
                  (Some (NodoHuffman (Some a) f None None))))"
  by (simp add: construir_arbol_huffman_def hq_heapify_def siftup_def siftdown_def
        siftup_bucle.simps siftdown_bucle.simps arbol_bucle.simps hq_heappop_def hq_heappush_def
        nodo_lt_def Let_def)

lemma generar_dos_hojas:
  "generar_codigos (Suc (Suc (Suc n)))
     (Some (NodoHuffman None g (Some (NodoHuffman (Some b) f None None))
                               (Some (NodoHuffman (Some a) f None None)))) [] Map.empty
   = Inr [Some b \<mapsto> ''0'', Some a \<mapsto> ''1'']"
  by simp

lemma generar_dos_simbolos:
  "generar_codigos marcos_disponibles
     (Some (NodoHuffman None g (Some (NodoHuffman (Some b) f None None))
                               (Some (NodoHuffman (Some a) f None None)))) [] Map.empty
   = Inr [Some b \<mapsto> ''0'', Some a \<mapsto> ''1'']"
proof -
  have m: "marcos_disponibles = Suc (Suc (Suc 994))" by (simp add: marcos_disponibles_def)
  show ?thesis unfolding m by (rule generar_dos_hojas)
qed

subsection \<open>Claim C9: two symbols of equal frequency\<close>

text \<open>
  C9, as the code has it. When the frequency table of the text has exactly two symbols, both
  with the frequency \<open>f\<close>, each symbol gets a code of one bit: the original size is
  \<open>2 * f * 8\<close> bits, the compressed size is \<open>2 * f\<close> bits, and the compression ratio is
  \<open>(1 - 2 f / 16 f) * 100 = 87.5\<close> percent.
\<close>

theorem tasa_dos_simbolos_iguales:
  assumes "calcular_frecuencias texto = [(a, f), (b, f)]"
  shows "ejecutar_huffman texto = Inr (16 * f, 2 * f, 175 / 2)"
proof -
  have len: "int (length texto) = 2 * f"
    using calcular_frecuencias_suma[of texto] assms by simp
  have "distinct (map fst (calcular_frecuencias texto))" by (rule calcular_frecuencias_distinct)
  with assms have ab: "a \<noteq> b" by simp
  have "texto \<noteq> []" using assms by (auto simp: calcular_frecuencias_def)
  with len have f: "f \<noteq> 0" by auto
  show ?thesis
    using ab len f
    by (simp add: ejecutar_huffman_def assms arbol_dos_simbolos generar_dos_simbolos Let_def)
qed

theorem tasa_dos_simbolos_iguales_witness:
  "calcular_frecuencias ''abab'' = [(CHR ''a'', 2), (CHR ''b'', 2)] \<and>
   ejecutar_huffman ''abab'' = Inr (16 * 2, 2 * 2, 175 / 2)"
proof -
  have h: "calcular_frecuencias ''abab'' = [(CHR ''a'', 2), (CHR ''b'', 2)]"
    by (simp add: calcular_frecuencias_def contar_def)
  show ?thesis using h tasa_dos_simbolos_iguales[OF h] by simp
qed

text \<open>
  C9 as stated fails: for the text \<open>ab\<close> (two symbols, each of frequency 1) the ratio is 87.5
  percent, not 0.
\<close>

theorem tasa_dos_simbolos_no_es_cero:
  "calcular_frecuencias ''ab'' = [(CHR ''a'', 1), (CHR ''b'', 1)] \<and>
   ejecutar_huffman ''ab'' = Inr (16, 2, 175 / 2) \<and> (175 / 2 :: real) \<noteq> 0"
proof -
  have h: "calcular_frecuencias ''ab'' = [(CHR ''a'', 1), (CHR ''b'', 1)]"
    by (simp add: calcular_frecuencias_def contar_def)
  have "ejecutar_huffman ''ab'' = Inr (16, 2, 175 / 2)"
    by (simp add: ejecutar_huffman_def h arbol_dos_simbolos generar_dos_simbolos Let_def)
  with h show ?thesis by simp
qed

section \<open>Connectivity of an edge set\<close>

text \<open>
  The edges are undirected: \<open>adyacentes S\<close> relates the two end points of every edge of
  \<open>S\<close>, in both directions, and \<open>conectados S\<close> relates the nodes joined by a path of edges
  of \<open>S\<close> (every node to itself).
\<close>

definition adyacentes :: "'a arista set \<Rightarrow> ('a \<times> 'a) set" where
  "adyacentes S = {(u, v). \<exists>w. (u, v, w) \<in> S \<or> (v, u, w) \<in> S}"

definition conectados :: "'a arista set \<Rightarrow> ('a \<times> 'a) set" where
  "conectados S = (adyacentes S)\<^sup>*"

lemma adyacentes_sym: "(u, v) \<in> adyacentes S \<Longrightarrow> (v, u) \<in> adyacentes S"
  by (auto simp: adyacentes_def)

lemma adyacentes_mono: "S \<subseteq> T \<Longrightarrow> adyacentes S \<subseteq> adyacentes T"
  by (auto simp: adyacentes_def)

lemma adyacentes_insert:
  "adyacentes (insert (x, y, w) S) = insert (x, y) (insert (y, x) (adyacentes S))"
  by (auto simp: adyacentes_def)

lemma conectados_refl [simp]: "(u, u) \<in> conectados S"
  by (simp add: conectados_def)

lemma conectados_trans: "(u, v) \<in> conectados S \<Longrightarrow> (v, x) \<in> conectados S \<Longrightarrow> (u, x) \<in> conectados S"
  unfolding conectados_def by (rule rtrancl_trans)

lemma conectados_sym: "(u, v) \<in> conectados S \<Longrightarrow> (v, u) \<in> conectados S"
  unfolding conectados_def
proof (induction rule: rtrancl_induct)
  case base
  show ?case by simp
next
  case (step y z)
  from step.hyps(2) have "(z, y) \<in> adyacentes S" by (rule adyacentes_sym)
  then show ?case using step.IH by (rule converse_rtrancl_into_rtrancl)
qed

lemma conectados_mono: "S \<subseteq> T \<Longrightarrow> conectados S \<subseteq> conectados T"
  unfolding conectados_def by (intro rtrancl_mono adyacentes_mono)

lemma conectados_arista: "(u, v, w) \<in> S \<Longrightarrow> (u, v) \<in> conectados S"
  unfolding conectados_def by (rule r_into_rtrancl) (auto simp: adyacentes_def)

lemma conectados_adyacentes: "adyacentes S \<subseteq> conectados S"
  unfolding conectados_def by auto

lemma conectados_menor: "adyacentes S \<subseteq> conectados T \<Longrightarrow> conectados S \<subseteq> conectados T"
  unfolding conectados_def by (rule rtrancl_subset_rtrancl)

lemma conectados_insert_sub:
  assumes "(x, y) \<in> conectados R" and "conectados S \<subseteq> conectados R"
  shows "conectados (insert (x, y, w) S) \<subseteq> conectados R"
proof (rule conectados_menor)
  have "(y, x) \<in> conectados R" using assms(1) by (rule conectados_sym)
  moreover have "adyacentes S \<subseteq> conectados R" using conectados_adyacentes assms(2) by blast
  ultimately show "adyacentes (insert (x, y, w) S) \<subseteq> conectados R"
    using assms(1) by (auto simp: adyacentes_insert)
qed

lemma conectados_insert_casos:
  assumes "(p, q) \<in> conectados (insert (x, y, w) S)"
  shows "(p, q) \<in> conectados S \<or> ((p, x) \<in> conectados S \<and> (y, q) \<in> conectados S) \<or>
         ((p, y) \<in> conectados S \<and> (x, q) \<in> conectados S)"
  using assms unfolding conectados_def[of "insert (x, y, w) S"]
proof (induction rule: rtrancl_induct)
  case base
  show ?case by simp
next
  case (step q q')
  from step.hyps(2) consider (old) "(q, q') \<in> adyacentes S" | (xy) "q = x" "q' = y"
    | (yx) "q = y" "q' = x"
    by (auto simp: adyacentes_insert)
  then show ?case
  proof cases
    case old
    then have a: "(q, q') \<in> conectados S" using conectados_adyacentes by blast
    from step.IH consider "(p, q) \<in> conectados S"
      | "(p, x) \<in> conectados S" "(y, q) \<in> conectados S"
      | "(p, y) \<in> conectados S" "(x, q) \<in> conectados S" by blast
    then show ?thesis
    proof cases
      case 1
      then have "(p, q') \<in> conectados S" using a by (rule conectados_trans)
      then show ?thesis by simp
    next
      case 2
      from 2(2) a have "(y, q') \<in> conectados S" by (rule conectados_trans)
      with 2(1) show ?thesis by simp
    next
      case 3
      from 3(2) a have "(x, q') \<in> conectados S" by (rule conectados_trans)
      with 3(1) show ?thesis by simp
    qed
  next
    case xy
    with step.IH show ?thesis by auto
  next
    case yx
    with step.IH show ?thesis by auto
  qed
qed

lemma conectados_nodos:
  "(u, v) \<in> conectados S \<Longrightarrow> u = v \<or> (\<exists>a b w. ((a, b, w) \<in> S) \<and> (v = a \<or> v = b))"
  unfolding conectados_def
  by (induction rule: rtrancl_induct) (auto simp: adyacentes_def)

lemma no_cruza:
  assumes "\<forall>(x, y, w) \<in> S. x \<in> C \<longleftrightarrow> y \<in> C"
  shows "(u, v) \<in> conectados S \<Longrightarrow> u \<in> C \<longleftrightarrow> v \<in> C"
  unfolding conectados_def
proof (induction rule: rtrancl_induct)
  case base
  show ?case by simp
next
  case (step y z)
  from step.hyps(2) assms have "y \<in> C \<longleftrightarrow> z \<in> C" by (auto simp: adyacentes_def)
  with step.IH show ?case by simp
qed

lemma conectados_insert_iff:
  "(p, q) \<in> conectados (insert (x, y, w) S) \<longleftrightarrow>
     (p, q) \<in> conectados S \<or> ((p, x) \<in> conectados S \<and> (y, q) \<in> conectados S) \<or>
     ((p, y) \<in> conectados S \<and> (x, q) \<in> conectados S)"
proof
  assume "(p, q) \<in> conectados (insert (x, y, w) S)"
  then show "(p, q) \<in> conectados S \<or> ((p, x) \<in> conectados S \<and> (y, q) \<in> conectados S) \<or>
     ((p, y) \<in> conectados S \<and> (x, q) \<in> conectados S)" by (rule conectados_insert_casos)
next
  let ?T = "insert (x, y, w) S"
  have m: "(a, b) \<in> conectados ?T" if "(a, b) \<in> conectados S" for a b
    using conectados_mono[of S ?T] that by blast
  have xy: "(x, y) \<in> conectados ?T" by (rule conectados_arista[of x y w]) simp
  have yx: "(y, x) \<in> conectados ?T" using xy by (rule conectados_sym)
  assume "(p, q) \<in> conectados S \<or> ((p, x) \<in> conectados S \<and> (y, q) \<in> conectados S) \<or>
     ((p, y) \<in> conectados S \<and> (x, q) \<in> conectados S)"
  then consider "(p, q) \<in> conectados S"
    | "(p, x) \<in> conectados S" "(y, q) \<in> conectados S"
    | "(p, y) \<in> conectados S" "(x, q) \<in> conectados S" by blast
  then show "(p, q) \<in> conectados ?T"
  proof cases
    case 1
    then show ?thesis by (rule m)
  next
    case 2
    have "(p, y) \<in> conectados ?T" using m[OF 2(1)] xy by (rule conectados_trans)
    then show ?thesis using m[OF 2(2)] by (rule conectados_trans)
  next
    case 3
    have "(p, x) \<in> conectados ?T" using m[OF 3(1)] yx by (rule conectados_trans)
    then show ?thesis using m[OF 3(2)] by (rule conectados_trans)
  qed
qed

section \<open>Kruskal: the loop against its specification\<close>

text \<open>
  \<open>aceptar_en_orden\<close> is the selection that the specification describes, with no union-find:
  it goes through the edges in the order given, accepts an edge exactly when its end points
  are not yet joined by the edges accepted so far, and stops as soon as it has accepted one
  edge less than there are nodes. \<open>mismo uf x y\<close> says that \<open>x\<close> and \<open>y\<close> have the same
  representative in the union-find \<open>uf\<close>. The invariant \<open>kinv\<close> ties the union-find of the
  loop of \<open>kruskal\<close> to the accepted edges: two nodes have the same representative exactly
  when the accepted edges join them, and every accepted edge has removed one representative.
\<close>

fun aceptar_en_orden :: "nat \<Rightarrow> 'a arista list \<Rightarrow> 'a arista list \<Rightarrow> 'a arista list" where
  "aceptar_en_orden n [] mst = mst"
| "aceptar_en_orden n ((u, v, w) # resto) mst =
     (if (u, v) \<in> conectados (set mst) then aceptar_en_orden n resto mst
      else
        (let mst' = mst @ [(u, v, w)]
         in if int (length mst') = int n - 1 then mst' else aceptar_en_orden n resto mst'))"

definition mismo :: "'a union_find \<Rightarrow> 'a \<Rightarrow> 'a \<Rightarrow> bool" where
  "mismo uf x y \<longleftrightarrow> (\<exists>r. raiz_de uf x r \<and> raiz_de uf y r)"


definition kinv :: "'a set \<Rightarrow> 'a union_find \<Rightarrow> 'a arista list \<Rightarrow> bool" where
  "kinv N uf mst \<longleftrightarrow>
     uf_inv uf \<and> dom (padre uf) = N \<and>
     (\<forall>p \<in> N. \<forall>q \<in> N. mismo uf p q \<longleftrightarrow> (p, q) \<in> conectados (set mst)) \<and>
     card {z. padre uf z = Some z} + length mst = card N"


lemma unir_devuelve:
  assumes inv: "uf_inv uf" and x: "x \<in> dom (padre uf)" and y: "y \<in> dom (padre uf)"
  shows "\<exists>b uf'. unir uf x y = Some (Inr (b, uf'))"
proof -
  from tiene_raiz[OF inv x] obtain r1 where r1: "raiz_de uf x r1" ..
  from tiene_raiz[OF inv y] obtain r2 where r2: "raiz_de uf y r2" ..
  show ?thesis using unir_raices[OF inv r1 r2] by blast
qed

lemma sorted_subseq: "subseq xs ys \<Longrightarrow> sorted ys \<Longrightarrow> sorted (xs :: 'b::linorder list)"
proof (induction rule: list_emb.induct)
  case (list_emb_Nil ys)
  show ?case by simp
next
  case (list_emb_Cons xs ys y)
  then show ?case by simp
next
  case (list_emb_Cons2 x y xs ys)
  have "set xs \<subseteq> set ys" using list_emb_Cons2.hyps(2) by (auto dest: list_emb_set)
  with list_emb_Cons2 show ?case by auto
qed

lemma UnionFind_dom: "dom (padre (UnionFind nodos)) = set nodos"
  by (auto simp: UnionFind_def dom_def)

lemma peso_de_arista: "peso_de (a, b, w) = w"
  by (simp add: peso_de_def)

subsection \<open>What \<open>unir\<close> does to the partition\<close>

lemma raiz_iff_padre: "raiz_de uf z z \<longleftrightarrow> padre uf z = Some z"
  by (auto intro: raiz_de.raiz_aqui dest: raiz_de_es_raiz)

lemma raices_iguales:
  assumes "\<And>z s. raiz_de uf' z s = raiz_de uf z s"
  shows "{z. padre uf' z = Some z} = {z. padre uf z = Some z}" and "mismo uf' p q = mismo uf p q"
  using assms by (simp_all add: raiz_iff_padre[symmetric] mismo_def)

lemma unir_efecto_igual:
  assumes inv: "uf_inv uf" and x: "raiz_de uf x r" and y: "raiz_de uf y r"
    and u: "unir uf x y = Some (Inr (b, uf'))"
  shows "\<not> b" and "raiz_de uf' z s = raiz_de uf z s"
proof -
  let ?c1 = "comprimir uf x r"
  let ?c2 = "comprimir ?c1 y r"
  from unir_raices[OF inv x y] u have b: "b = False" and uf': "uf' = ?c2" by simp_all
  show "\<not> b" using b by simp
  have i1: "uf_inv ?c1" using inv x by (rule comprimir_inv)
  have y1: "raiz_de ?c1 y r" using x y by (rule comprimir_raiz)
  show "raiz_de uf' z s = raiz_de uf z s"
    unfolding uf' using comprimir_raiz_iff[OF i1 y1] comprimir_raiz_iff[OF inv x] by simp
qed

lemma unir_efecto_distinto:
  assumes inv: "uf_inv uf" and x: "raiz_de uf x r1" and y: "raiz_de uf y r2" and ne: "r1 \<noteq> r2"
    and u: "unir uf x y = Some (Inr (b, uf'))"
  shows "b" and "\<exists>g p. {g, p} = {r1, r2} \<and> g \<noteq> p \<and> padre uf p = Some p \<and>
            (\<forall>z s. raiz_de uf z s \<longrightarrow> raiz_de uf' z (if s = p then g else s)) \<and>
            {z. padre uf' z = Some z} = {z. padre uf z = Some z} - {p}"
proof -
  define c2 where "c2 = comprimir (comprimir uf x r1) y r2"
  from unir_raices[OF inv x y] u ne have b: "b = True" and uf': "uf' = enlazar c2 r1 r2"
    unfolding c2_def by simp_all
  show "b" using b by simp
  have i1: "uf_inv (comprimir uf x r1)" using inv x by (rule comprimir_inv)
  have y1: "raiz_de (comprimir uf x r1) y r2" using x y by (rule comprimir_raiz)
  have eq: "raiz_de c2 z s = raiz_de uf z s" for z s
    unfolding c2_def using comprimir_raiz_iff[OF i1 y1] comprimir_raiz_iff[OF inv x] by simp
  have pe: "padre c2 z = Some z \<longleftrightarrow> padre uf z = Some z" for z
    using eq[of z z] by (simp add: raiz_iff_padre)
  have p1: "padre c2 r1 = Some r1" unfolding pe using x by (rule raiz_de_es_raiz)
  have p2: "padre c2 r2 = Some r2" unfolding pe using y by (rule raiz_de_es_raiz)
  define g where "g = (if the (rango c2 r1) < the (rango c2 r2) then r2 else r1)"
  define p where "p = (if the (rango c2 r1) < the (rango c2 r2) then r1 else r2)"
  have gp: "{g, p} = {r1, r2}" using ne by (auto simp: g_def p_def)
  have gp2: "g \<noteq> p" using ne by (auto simp: g_def p_def)
  have pg: "padre c2 g = Some g" using p1 p2 by (simp add: g_def)
  have pp: "padre c2 p = Some p" using p1 p2 by (simp add: p_def)
  have pu: "padre uf' = (padre c2)(p \<mapsto> g)"
    unfolding uf' by (simp add: enlazar_padre g_def p_def)
  have r: "raiz_de uf' z (if s = p then g else s)" if "raiz_de uf z s" for z s
  proof -
    from that have "raiz_de c2 z s" using eq by simp
    then show ?thesis by (rule enlazar_raiz[OF pg pp gp2 pu])
  qed
  have "{z. padre uf' z = Some z} = {z. padre c2 z = Some z} - {p}"
    unfolding pu using gp2 by auto
  then have rs: "{z. padre uf' z = Some z} = {z. padre uf z = Some z} - {p}"
    unfolding pe .
  have ppu: "padre uf p = Some p" using pp unfolding pe .
  show "\<exists>g p. {g, p} = {r1, r2} \<and> g \<noteq> p \<and> padre uf p = Some p \<and>
            (\<forall>z s. raiz_de uf z s \<longrightarrow> raiz_de uf' z (if s = p then g else s)) \<and>
            {z. padre uf' z = Some z} = {z. padre uf z = Some z} - {p}"
    apply (rule exI[of _ g], rule exI[of _ p])
    apply (intro conjI allI impI)
        apply (rule gp)
       apply (rule gp2)
      apply (rule ppu)
     apply (erule r)
    apply (rule rs)
    done
qed

lemma mismo_raiz:
  assumes "raiz_de uf p rp"
  shows "mismo uf p z \<longleftrightarrow> raiz_de uf z rp"
proof
  assume "mismo uf p z"
  then obtain r where r: "raiz_de uf p r" "raiz_de uf z r" unfolding mismo_def by blast
  from assms r(1) have "rp = r" by (rule raiz_de_determinista)
  with r(2) show "raiz_de uf z rp" by simp
next
  assume "raiz_de uf z rp"
  with assms show "mismo uf p z" unfolding mismo_def by blast
qed

lemma mismo_sim: "mismo uf p q \<Longrightarrow> mismo uf q p"
  unfolding mismo_def by blast

lemma mismo_raices:
  assumes "raiz_de uf p rp" "raiz_de uf q rq"
  shows "mismo uf p q \<longleftrightarrow> rp = rq"
proof -
  have "mismo uf p q \<longleftrightarrow> raiz_de uf q rp" using assms(1) by (rule mismo_raiz)
  also have "\<dots> \<longleftrightarrow> rp = rq"
  proof
    assume "raiz_de uf q rp"
    then show "rp = rq" using assms(2) by (rule raiz_de_determinista)
  next
    assume "rp = rq"
    with assms(2) show "raiz_de uf q rp" by simp
  qed
  finally show ?thesis .
qed

lemma unir_mismo:
  assumes inv: "uf_inv uf" and xd: "x \<in> dom (padre uf)" and yd: "y \<in> dom (padre uf)"
    and u: "unir uf x y = Some (Inr (b, uf'))"
  shows "b \<longleftrightarrow> \<not> mismo uf x y"
    and "\<And>p q. p \<in> dom (padre uf) \<Longrightarrow> q \<in> dom (padre uf) \<Longrightarrow>
           mismo uf' p q \<longleftrightarrow>
             (mismo uf p q \<or> (b \<and> (mismo uf p x \<and> mismo uf y q \<or> mismo uf p y \<and> mismo uf x q)))"
    and "card {z. padre uf' z = Some z} + (if b then 1 else 0) = card {z. padre uf z = Some z}"
proof -
  from tiene_raiz[OF inv xd] obtain r1 where x: "raiz_de uf x r1" ..
  from tiene_raiz[OF inv yd] obtain r2 where y: "raiz_de uf y r2" ..
  have mxy: "mismo uf x y \<longleftrightarrow> r1 = r2" using x y by (rule mismo_raices)
  have fin: "finite {z. padre uf z = Some z}"
  proof (rule finite_subset)
    show "{z. padre uf z = Some z} \<subseteq> dom (padre uf)" by auto
    show "finite (dom (padre uf))" using inv by (simp add: uf_inv_def)
  qed
  have all: "(b \<longleftrightarrow> \<not> mismo uf x y) \<and>
    (\<forall>p q. p \<in> dom (padre uf) \<longrightarrow> q \<in> dom (padre uf) \<longrightarrow>
           mismo uf' p q = (mismo uf p q \<or> (b \<and> (mismo uf p x \<and> mismo uf y q \<or> mismo uf p y \<and> mismo uf x q)))) \<and>
    card {z. padre uf' z = Some z} + (if b then 1 else 0) = card {z. padre uf z = Some z}"
  proof (cases "r1 = r2")
    case True
    with y have y': "raiz_de uf y r1" by simp
    have nb: "\<not> b" using inv x y' u by (rule unir_efecto_igual(1))
    have eq: "\<And>z s. raiz_de uf' z s = raiz_de uf z s" using inv x y' u by (rule unir_efecto_igual(2))
    have m: "mismo uf' p q = mismo uf p q" for p q using eq by (rule raices_iguales(2))
    have rs: "{z. padre uf' z = Some z} = {z. padre uf z = Some z}" using eq by (rule raices_iguales(1))
    show ?thesis using nb mxy True by (simp add: m rs)
  next
    case False
    have b: "b" using inv x y False u by (rule unir_efecto_distinto(1))
    from unir_efecto_distinto(2)[OF inv x y False u] obtain g l where
      gl: "{g, l} = {r1, r2}" and gl2: "g \<noteq> l" and lr: "padre uf l = Some l"
      and r: "\<And>z s. raiz_de uf z s \<Longrightarrow> raiz_de uf' z (if s = l then g else s)"
      and rs: "{z. padre uf' z = Some z} = {z. padre uf z = Some z} - {l}" by blast
    have casos: "(g = r1 \<and> l = r2) \<or> (g = r2 \<and> l = r1)"
      using gl gl2 by (auto simp: doubleton_eq_iff)
    have mm: "mismo uf' p q = (mismo uf p q \<or> (mismo uf p x \<and> mismo uf y q \<or> mismo uf p y \<and> mismo uf x q))"
      if pd: "p \<in> dom (padre uf)" and qd: "q \<in> dom (padre uf)" for p q
    proof -
      from tiene_raiz[OF inv pd] obtain rp where rp: "raiz_de uf p rp" ..
      from tiene_raiz[OF inv qd] obtain rq where rq: "raiz_de uf q rq" ..
      have a1: "mismo uf' p q \<longleftrightarrow> (if rp = l then g else rp) = (if rq = l then g else rq)"
        using r[OF rp] r[OF rq] by (rule mismo_raices)
      have a2: "mismo uf p q \<longleftrightarrow> rp = rq" using rp rq by (rule mismo_raices)
      have a3: "mismo uf p x \<longleftrightarrow> rp = r1" using rp x by (rule mismo_raices)
      have a4: "mismo uf p y \<longleftrightarrow> rp = r2" using rp y by (rule mismo_raices)
      have a5: "mismo uf y q \<longleftrightarrow> r2 = rq" using y rq by (rule mismo_raices)
      have a6: "mismo uf x q \<longleftrightarrow> r1 = rq" using x rq by (rule mismo_raices)
      show ?thesis unfolding a1 a2 a3 a4 a5 a6 using casos False by auto
    qed
    have "l \<in> {z. padre uf z = Some z}" using lr by simp
    with fin have "card ({z. padre uf z = Some z} - {l}) + 1 = card {z. padre uf z = Some z}"
      by (metis One_nat_def add.commute card_Diff_singleton card_gt_0_iff empty_iff
            le_add_diff_inverse less_eq_Suc_le plus_1_eq_Suc)
    then have cd: "card {z. padre uf' z = Some z} + 1 = card {z. padre uf z = Some z}"
      unfolding rs .
    show ?thesis using b mxy False cd by (simp add: mm)
  qed
  show "b \<longleftrightarrow> \<not> mismo uf x y" using all by (rule conjunct1)
  show "\<And>p q. p \<in> dom (padre uf) \<Longrightarrow> q \<in> dom (padre uf) \<Longrightarrow>
           mismo uf' p q \<longleftrightarrow>
             (mismo uf p q \<or> (b \<and> (mismo uf p x \<and> mismo uf y q \<or> mismo uf p y \<and> mismo uf x q)))"
    using all by simp
  show "card {z. padre uf' z = Some z} + (if b then 1 else 0) = card {z. padre uf z = Some z}"
    by (rule conjunct2[OF conjunct2[OF all]])
qed

subsection \<open>The loop accepts the edges of the specification\<close>

lemma kinv_inicial: "distinct nodos \<Longrightarrow> kinv (set nodos) (UnionFind nodos) []"
proof -
  assume d: "distinct nodos"
  let ?uf = "UnionFind nodos"
  have p: "padre ?uf z = (if z \<in> set nodos then Some z else None)" for z
    by (simp add: UnionFind_def)
  have r: "{z. padre ?uf z = Some z} = set nodos" by (auto simp: p)
  have m: "mismo ?uf a b \<longleftrightarrow> a = b" if "a \<in> set nodos" "b \<in> set nodos" for a b
  proof -
    have "raiz_de ?uf a a" using that(1) by (simp add: raiz_iff_padre p)
    moreover have "raiz_de ?uf b b" using that(2) by (simp add: raiz_iff_padre p)
    ultimately show ?thesis by (rule mismo_raices)
  qed
  have c: "(a, b) \<in> conectados {} \<longleftrightarrow> a = b" for a b :: 'a
    by (auto simp: conectados_def adyacentes_def)
  show ?thesis
    unfolding kinv_def
    by (intro conjI ballI) (simp_all add: UnionFind_inv UnionFind_dom r m c distinct_card[OF d])
qed

lemma kinv_paso:
  assumes k: "kinv N uf mst" and aN: "a \<in> N" and bN: "b \<in> N"
    and u: "unir uf a b = Some (Inr (u, uf'))"
  shows "u \<longleftrightarrow> (a, b) \<notin> conectados (set mst)"
    and "kinv N uf' (if u then mst @ [(a, b, w)] else mst)"
proof -
  from k have inv: "uf_inv uf" and dm: "dom (padre uf) = N"
    and ab: "\<And>p q. p \<in> N \<Longrightarrow> q \<in> N \<Longrightarrow> mismo uf p q \<longleftrightarrow> (p, q) \<in> conectados (set mst)"
    and cd: "card {z. padre uf z = Some z} + length mst = card N"
    unfolding kinv_def by simp_all
  have ad: "a \<in> dom (padre uf)" and bd: "b \<in> dom (padre uf)" using aN bN dm by simp_all
  have inv': "uf_inv uf'" using inv ad bd u by (rule unir_inv)
  have dm': "dom (padre uf') = N" using unir_dom[OF inv ad bd u] dm by simp
  have u1: "u \<longleftrightarrow> \<not> mismo uf a b" using inv ad bd u by (rule unir_mismo(1))
  show u2: "u \<longleftrightarrow> (a, b) \<notin> conectados (set mst)" unfolding u1 ab[OF aN bN] ..
  have mm: "mismo uf' p q \<longleftrightarrow>
      (mismo uf p q \<or> (u \<and> (mismo uf p a \<and> mismo uf b q \<or> mismo uf p b \<and> mismo uf a q)))"
    if "p \<in> N" "q \<in> N" for p q
    using that dm by (intro unir_mismo(2)[OF inv ad bd u]) simp_all
  have c': "card {z. padre uf' z = Some z} + (if u then 1 else 0) = card {z. padre uf z = Some z}"
    using inv ad bd u by (rule unir_mismo(3))
  show "kinv N uf' (if u then mst @ [(a, b, w)] else mst)"
  proof (cases u)
    case False
    have "mismo uf' p q \<longleftrightarrow> (p, q) \<in> conectados (set mst)" if "p \<in> N" "q \<in> N" for p q
      using mm[OF that] ab[OF that] False by simp
    then show ?thesis unfolding kinv_def using False inv' dm' c' cd by simp
  next
    case True
    have "mismo uf' p q \<longleftrightarrow> (p, q) \<in> conectados (set (mst @ [(a, b, w)]))" if "p \<in> N" "q \<in> N" for p q
      using mm[OF that] ab[OF that] ab[OF that(1) aN] ab[OF that(1) bN] ab[OF bN that(2)]
        ab[OF aN that(2)] True
      by (simp add: conectados_insert_iff)
    then show ?thesis unfolding kinv_def using True inv' dm' c' cd by simp
  qed
qed

lemma kruskal_bucle_refina:
  "kinv N uf mst \<Longrightarrow> list_all (\<lambda>(a, b, w). a \<in> N \<and> b \<in> N) es \<Longrightarrow>
   suma = sum_list (map peso_de mst) \<Longrightarrow>
   kruskal_bucle n uf es mst suma =
     Some (Inr (aceptar_en_orden n es mst, sum_list (map peso_de (aceptar_en_orden n es mst))))"
proof (induction es arbitrary: uf mst suma)
  case Nil
  then show ?case by simp
next
  case (Cons e es)
  obtain a b w where e: "e = (a, b, w)" by (cases e)
  have aN: "a \<in> N" and bN: "b \<in> N" and resto: "list_all (\<lambda>(a, b, w). a \<in> N \<and> b \<in> N) es"
    using Cons.prems(2) e by simp_all
  from Cons.prems(1) have inv: "uf_inv uf" and dm: "dom (padre uf) = N"
    unfolding kinv_def by simp_all
  have ad: "a \<in> dom (padre uf)" and bd: "b \<in> dom (padre uf)" using aN bN dm by simp_all
  from unir_devuelve[OF inv ad bd] obtain u uf' where u: "unir uf a b = Some (Inr (u, uf'))"
    by blast
  have u2: "u \<longleftrightarrow> (a, b) \<notin> conectados (set mst)"
    using Cons.prems(1) aN bN u by (rule kinv_paso(1))
  have k': "kinv N uf' (if u then mst @ [(a, b, w)] else mst)"
    using Cons.prems(1) aN bN u by (rule kinv_paso(2))
  show ?case
  proof (cases u)
    case False
    with k' have "kinv N uf' mst" by simp
    from Cons.IH[OF this resto Cons.prems(3)] False u u2 e show ?thesis by simp
  next
    case True
    with k' have k2: "kinv N uf' (mst @ [(a, b, w)])" by simp
    have s: "suma + w = sum_list (map peso_de (mst @ [(a, b, w)]))"
      using Cons.prems(3) by (simp add: peso_de_arista)
    from Cons.IH[OF k2 resto s] True u u2 e Cons.prems(3) show ?thesis
      by (simp add: Let_def peso_de_arista)
  qed
qed

lemma aceptar_en_orden_subseq:
  "\<exists>sub. aceptar_en_orden n es mst = mst @ sub \<and> subseq sub es"
proof (induction es arbitrary: mst)
  case Nil
  show ?case by simp
next
  case (Cons e es)
  obtain a b w where e: "e = (a, b, w)" by (cases e)
  show ?case
  proof (cases "(a, b) \<in> conectados (set mst)")
    case True
    from Cons.IH[of mst] obtain sub where
      "aceptar_en_orden n es mst = mst @ sub" "subseq sub es" by blast
    with True e show ?thesis by auto
  next
    case False
    show ?thesis
    proof (cases "int (length (mst @ [(a, b, w)])) = int n - 1")
      case t: True
      have "subseq [e] (e # es)" by simp
      with False e t show ?thesis by (auto simp: Let_def)
    next
      case f: False
      from Cons.IH[of "mst @ [(a, b, w)]"] obtain sub where
        s: "aceptar_en_orden n es (mst @ [(a, b, w)]) = (mst @ [(a, b, w)]) @ sub"
        "subseq sub es" by blast
      have "subseq (e # sub) (e # es)" using s(2) by simp
      with False e f s(1) show ?thesis by (auto simp: Let_def)
    qed
  qed
qed

lemma kruskal_refina:
  "kruskal aristas =
     Some (Inr (aceptar_en_orden (length (nodos_de aristas)) (sort_key peso_de aristas) [],
                sum_list (map peso_de
                  (aceptar_en_orden (length (nodos_de aristas)) (sort_key peso_de aristas) []))))"
proof (cases "aristas = []")
  case True
  then show ?thesis by (simp add: kruskal_def)
next
  case False
  have d: "distinct (nodos_de aristas)" by (simp add: nodos_de_def)
  have k: "kinv (set (nodos_de aristas)) (UnionFind (nodos_de aristas)) []"
    using d by (rule kinv_inicial)
  have "\<forall>(a, b, w) \<in> set (sort_key peso_de aristas).
          a \<in> set (nodos_de aristas) \<and> b \<in> set (nodos_de aristas)"
    by (auto simp: nodos_de_conj)
  then have l: "list_all (\<lambda>(a, b, w). a \<in> set (nodos_de aristas) \<and> b \<in> set (nodos_de aristas))
                  (sort_key peso_de aristas)"
    by (simp add: list_all_iff)
  have z: "(0 :: int) = sum_list (map peso_de [])" by simp
  show ?thesis
    using False kruskal_bucle_refina[OF k l z, of "length (nodos_de aristas)"]
    by (simp add: kruskal_def Let_def)
qed

lemma conectados_vacio: "(a, b) \<in> conectados {} \<longleftrightarrow> a = b"
  by (auto simp: conectados_def adyacentes_def)

lemma aceptar_ejemplo:
  "aceptar_en_orden (length (nodos_de aristas_ejemplo)) (sort_key peso_de aristas_ejemplo) []
     = [(''A'', ''B'', 1), (''B'', ''C'', 2)]"
  by (simp add: aristas_ejemplo_def nodos_de_def peso_de_def conectados_vacio
        conectados_insert_iff)

subsection \<open>Claim C7: edges are processed in stable sorted order\<close>

text \<open>
  C7. For every edge list \<open>kruskal\<close> returns (no exception, no divergence), and what it
  returns is the selection of the specification run on the stably sorted edge list:
  the edges are taken in the order of \<open>sort_key peso_de aristas\<close>, an edge is accepted
  exactly when the edges accepted before it do not join its end points, the loop stops
  after one edge less than there are nodes, and the total is the sum of the accepted
  weights. The sorted list is ascending in weight, is a permutation of the input, and
  keeps the edges of equal weight in their input order (a stable sort). The accepted edges
  are a subsequence of it, so the result lists them in sorted order. The result is a
  function of the edge list alone: a fixed input has one output.
\<close>

theorem kruskal_orden:
  "kruskal aristas =
     Some (Inr (aceptar_en_orden (length (nodos_de aristas)) (sort_key peso_de aristas) [],
                sum_list (map peso_de
                  (aceptar_en_orden (length (nodos_de aristas)) (sort_key peso_de aristas) [])))) \<and>
   sorted (map peso_de (sort_key peso_de aristas)) \<and>
   mset (sort_key peso_de aristas) = mset aristas \<and>
   (\<forall>k. filter (\<lambda>x. peso_de x = k) (sort_key peso_de aristas)
          = filter (\<lambda>x. peso_de x = k) aristas) \<and>
   subseq (aceptar_en_orden (length (nodos_de aristas)) (sort_key peso_de aristas) [])
          (sort_key peso_de aristas) \<and>
   sorted (map peso_de
     (aceptar_en_orden (length (nodos_de aristas)) (sort_key peso_de aristas) []))"
proof -
  let ?mst = "aceptar_en_orden (length (nodos_de aristas)) (sort_key peso_de aristas) []"
  have so: "sorted (map peso_de (sort_key peso_de aristas))" by simp
  from aceptar_en_orden_subseq[of "length (nodos_de aristas)" "sort_key peso_de aristas" "[]"]
  have s: "subseq ?mst (sort_key peso_de aristas)" by auto
  then have "subseq (map peso_de ?mst) (map peso_de (sort_key peso_de aristas))"
    by (rule subseq_map)
  then have sm: "sorted (map peso_de ?mst)" using so by (rule sorted_subseq)
  have st: "\<forall>k. filter (\<lambda>x. peso_de x = k) (sort_key peso_de aristas)
               = filter (\<lambda>x. peso_de x = k) aristas"
    by (simp add: sort_key_stable)
  have ms: "mset (sort_key peso_de aristas) = mset aristas" by simp
  show ?thesis by (intro conjI kruskal_refina so ms st s sm)
qed

text \<open>
  On the edges \<open>A-B: 1, B-C: 2, A-C: 4\<close> the selection accepts \<open>A-B\<close> and \<open>B-C\<close> and stops:
  \<open>kruskal\<close> returns them with the total 3.
\<close>

theorem kruskal_orden_witness:
  "kruskal aristas_ejemplo = Some (Inr ([(''A'', ''B'', 1), (''B'', ''C'', 2)], 3))"
  using kruskal_orden[of aristas_ejemplo] by (simp add: aceptar_ejemplo peso_de_def)

section \<open>Huffman: the code table\<close>

text \<open>
  \<open>hojas t\<close> lists the characters of the leaves of a tree from left to right, and
  \<open>codigos_de t codigo\<close> the pairs (character, code) that \<open>generar_codigos\<close> stores for them
  when it enters \<open>t\<close> with the accumulated code \<open>codigo\<close>. Two entries are \<open>incomparables\<close>
  when neither code is a prefix of the other. \<open>hojas_heap\<close> collects the leaves of all the
  trees of a heap. \<open>marcos_necesarios t\<close> is the depth of the deepest call that
  \<open>generar_codigos\<close> makes on \<open>t\<close>, its own frame included (a leaf takes two: the call and
  \<open>es_hoja\<close>). A tree is \<open>completo\<close> when every node has no child or two.
\<close>

fun hojas :: "'a NodoHuffman \<Rightarrow> 'a option list" where
  "hojas (NodoHuffman car fr izq der) =
     (if izq = None \<and> der = None then [car]
      else (case izq of None \<Rightarrow> [] | Some l \<Rightarrow> hojas l) @
           (case der of None \<Rightarrow> [] | Some r \<Rightarrow> hojas r))"

fun codigos_de :: "'a NodoHuffman \<Rightarrow> string \<Rightarrow> ('a option \<times> string) list" where
  "codigos_de (NodoHuffman car fr izq der) codigo =
     (if izq = None \<and> der = None then [(car, if codigo \<noteq> [] then codigo else ''0'')]
      else (case izq of None \<Rightarrow> [] | Some l \<Rightarrow> codigos_de l (codigo @ ''0'')) @
           (case der of None \<Rightarrow> [] | Some r \<Rightarrow> codigos_de r (codigo @ ''1'')))"

fun marcos_necesarios :: "'a NodoHuffman \<Rightarrow> nat" where
  "marcos_necesarios (NodoHuffman car fr izq der) =
     Suc (if izq = None \<and> der = None then 1
          else max (case izq of None \<Rightarrow> 1 | Some l \<Rightarrow> marcos_necesarios l)
                   (case der of None \<Rightarrow> 1 | Some r \<Rightarrow> marcos_necesarios r))"

fun completo :: "'a NodoHuffman \<Rightarrow> bool" where
  "completo (NodoHuffman car fr izq der) =
     (case (izq, der) of
        (None, None) \<Rightarrow> True
      | (Some l, Some r) \<Rightarrow> completo l \<and> completo r
      | _ \<Rightarrow> False)"

definition incomparables :: "'b \<times> string \<Rightarrow> 'b \<times> string \<Rightarrow> bool" where
  "incomparables x y \<longleftrightarrow> \<not> prefix (snd x) (snd y) \<and> \<not> prefix (snd y) (snd x)"

definition hojas_heap :: "'a NodoHuffman list \<Rightarrow> 'a option multiset" where
  "hojas_heap heap = (\<Sum>t \<in># mset heap. mset (hojas t))"

definition frecuencias_ejemplo :: "(char \<times> int) list" where
  "frecuencias_ejemplo = [(CHR ''A'', 5), (CHR ''B'', 3), (CHR ''C'', 1)]"

subsection \<open>Encoding and decoding with the code table\<close>

text \<open>
  Modelled from the spec: the repository has no encoder and no decoder (the spec speaks of
  decoding an encoded bit stream with the generated table). \<open>codificar\<close> concatenates the
  codes of the symbols. \<open>tabla_codigos\<close> lists the table in the order of the frequency
  table. \<open>decodificar\<close> reads the bits one at a time into a buffer and emits a symbol, and
  empties the buffer, as soon as the buffer is the code of a symbol; bits left in the buffer
  at the end are an error (\<open>None\<close>).
\<close>

definition codificar :: "('a option \<rightharpoonup> string) \<Rightarrow> 'a list \<Rightarrow> string" where
  "codificar codigos simbolos =
     concat (map (\<lambda>s. case codigos (Some s) of None \<Rightarrow> [] | Some c \<Rightarrow> c) simbolos)"

definition tabla_codigos :: "('a \<times> int) list \<Rightarrow> ('a option \<rightharpoonup> string) \<Rightarrow> ('a \<times> string) list" where
  "tabla_codigos frecuencias codigos =
     map (\<lambda>(s, f). (s, case codigos (Some s) of None \<Rightarrow> [] | Some c \<Rightarrow> c)) frecuencias"

fun decodificar :: "('a \<times> string) list \<Rightarrow> string \<Rightarrow> string \<Rightarrow> 'a list option" where
  "decodificar tabla buf [] = (if buf = [] then Some [] else None)"
| "decodificar tabla buf (b # bits) =
     (case find (\<lambda>(s, c). c = buf @ [b]) tabla of
        Some (s, c) \<Rightarrow> map_option ((#) s) (decodificar tabla [] bits)
      | None \<Rightarrow> decodificar tabla (buf @ [b]) bits)"

subsection \<open>The heap operations keep the elements\<close>

lemma mset_intercambio:
  assumes "i < length xs" "j < length xs"
  shows "mset (xs[i := xs ! j, j := y]) = mset (xs[i := y])"
proof (cases "i = j")
  case True
  then show ?thesis by simp
next
  case False
  have "mset (xs[i := xs ! j, j := y])
      = add_mset y (mset (xs[i := xs ! j]) - {#xs[i := xs ! j] ! j#})"
    using assms by (simp add: mset_update)
  also have "xs[i := xs ! j] ! j = xs ! j" using False by simp
  also have "mset (xs[i := xs ! j]) = add_mset (xs ! j) (mset xs - {#xs ! i#})"
    using assms by (simp add: mset_update)
  finally show ?thesis using assms by (simp add: mset_update)
qed

lemma siftdown_bucle_mset:
  "pos < length heap \<Longrightarrow>
   mset (siftdown_bucle lt heap startpos pos newitem) = mset (heap[pos := newitem])"
proof (induction lt heap startpos pos newitem rule: siftdown_bucle.induct)
  case (1 lt heap startpos pos newitem)
  show ?case
  proof (cases "pos > startpos \<and> lt newitem (heap ! ((pos - 1) div 2))")
    case True
    let ?pp = "(pos - 1) div 2"
    have pp: "?pp < length heap" using "1.prems" by simp
    have "mset (siftdown_bucle lt (heap[pos := heap ! ?pp]) startpos ?pp newitem)
        = mset (heap[pos := heap ! ?pp, ?pp := newitem])"
      using True pp by (intro "1.IH") auto
    also have "\<dots> = mset (heap[pos := newitem])"
      using "1.prems" pp by (rule mset_intercambio)
    finally show ?thesis using True by (subst siftdown_bucle.simps) (simp add: Let_def)
  next
    case False
    then show ?thesis by (subst siftdown_bucle.simps) (auto simp: Let_def)
  qed
qed

lemma siftdown_mset: "pos < length heap \<Longrightarrow> mset (siftdown lt heap startpos pos) = mset heap"
  by (simp add: siftdown_def siftdown_bucle_mset)

lemma siftup_bucle_mset:
  "pos < length heap \<Longrightarrow> endpos \<le> length heap \<Longrightarrow>
   siftup_bucle lt heap endpos pos childpos = (heap', pos') \<Longrightarrow>
   pos' < length heap' \<and> mset (heap'[pos' := newitem]) = mset (heap[pos := newitem])"
proof (induction lt heap endpos pos childpos arbitrary: heap' pos' rule: siftup_bucle.induct)
  case (1 lt heap endpos pos childpos)
  show ?case
  proof (cases "childpos < endpos")
    case False
    with "1.prems" show ?thesis by (subst (asm) siftup_bucle.simps) auto
  next
    case True
    define c where "c = (if Suc childpos < endpos \<and> \<not> lt (heap ! childpos) (heap ! Suc childpos)
                          then Suc childpos else childpos)"
    have c: "c < length heap" using True "1.prems"(2) by (auto simp: c_def)
    have r: "siftup_bucle lt (heap[pos := heap ! c]) endpos c (2 * c + 1) = (heap', pos')"
      using "1.prems"(3) True
      by (subst (asm) siftup_bucle.simps) (simp add: Let_def c_def split del: if_split)
    have "pos' < length heap' \<and> mset (heap'[pos' := newitem]) = mset (heap[pos := heap ! c, c := newitem])"
      using True c "1.prems"(2) r
      by (intro "1.IH"[OF True refl, of c]) (auto simp: c_def)
    moreover have "mset (heap[pos := heap ! c, c := newitem]) = mset (heap[pos := newitem])"
      using "1.prems"(1) c by (rule mset_intercambio)
    ultimately show ?thesis by simp
  qed
qed

lemma siftup_mset: "pos < length heap \<Longrightarrow> mset (siftup lt heap pos) = mset heap"
proof -
  assume p: "pos < length heap"
  obtain h q where hq: "siftup_bucle lt heap (length heap) pos (2 * pos + 1) = (h, q)"
    by (cases "siftup_bucle lt heap (length heap) pos (2 * pos + 1)")
  from siftup_bucle_mset[OF p le_refl hq, of "heap ! pos"]
  have q: "q < length h" and m: "mset (h[q := heap ! pos]) = mset heap" by simp_all
  have "siftup lt heap pos = siftdown lt (h[q := heap ! pos]) pos q"
    using hq by (simp add: siftup_def Let_def)
  then show ?thesis using q m by (simp add: siftdown_mset)
qed

lemma hq_heappush_mset: "mset (hq_heappush lt heap item) = add_mset item (mset heap)"
  by (simp add: hq_heappush_def siftdown_mset)

lemma hq_heappop_mset:
  "hq_heappop lt heap = Inr (x, heap') \<Longrightarrow> mset heap = add_mset x (mset heap')"
proof (cases heap rule: rev_cases)
  case Nil
  assume "hq_heappop lt heap = Inr (x, heap')"
  with Nil show ?thesis by (simp add: hq_heappop_def)
next
  case (snoc ys y)
  assume a: "hq_heappop lt heap = Inr (x, heap')"
  show ?thesis
  proof (cases "ys = []")
    case True
    with a snoc show ?thesis by (auto simp: hq_heappop_def)
  next
    case False
    then have l: "0 < length ys" by simp
    from a snoc False have x: "x = ys ! 0" and h: "heap' = siftup lt (ys[0 := y]) 0"
      by (auto simp: hq_heappop_def Let_def)
    have "mset heap' = mset (ys[0 := y])" unfolding h using l by (simp add: siftup_mset)
    also have "\<dots> = add_mset y (mset ys - {#ys ! 0#})" using l by (simp add: mset_update)
    finally show ?thesis using snoc x l by simp
  qed
qed

lemma hq_heapify_mset: "mset (hq_heapify lt xs) = mset xs"
proof -
  have "\<forall>i \<in> set is. i < length h \<Longrightarrow> 
        mset (fold (\<lambda>i heap. siftup lt heap i) is h) = mset h \<and>
        length (fold (\<lambda>i heap. siftup lt heap i) is h) = length h" for "is" h
    by (induction "is" arbitrary: h) (auto simp: siftup_mset)
  moreover have "\<forall>i \<in> set (rev [0..<length xs div 2]). i < length xs" by auto
  ultimately show ?thesis unfolding hq_heapify_def by blast
qed

subsection \<open>Codes of the leaves\<close>

lemma hojas_codigos: "map fst (codigos_de t codigo) = hojas t"
proof (induction t arbitrary: codigo)
  case (NodoHuffman car fr izq der)
  have l: "map fst (case izq of None \<Rightarrow> [] | Some l \<Rightarrow> codigos_de l c)
         = (case izq of None \<Rightarrow> [] | Some l \<Rightarrow> hojas l)" for c
    using NodoHuffman.IH(1) by (cases izq) auto
  have r: "map fst (case der of None \<Rightarrow> [] | Some l \<Rightarrow> codigos_de l c)
         = (case der of None \<Rightarrow> [] | Some l \<Rightarrow> hojas l)" for c
    using NodoHuffman.IH(2) by (cases der) auto
  show ?case by (simp add: l r)
qed

lemma marcos_necesarios_pos: "0 < marcos_necesarios t"
  by (cases t) simp

lemma generar_codigos_None:
  "generar_codigos marcos None codigo m = (if 1 \<le> marcos then Inr m else Inl RecursionError)"
  by (cases marcos) auto

lemma generar_codigos_Some:
  "generar_codigos marcos (Some t) codigo m =
     (if marcos_necesarios t \<le> marcos then Inr (m ++ map_of (rev (codigos_de t codigo)))
      else Inl RecursionError)"
proof (induction t arbitrary: marcos codigo m)
  case (NodoHuffman car fr izq der)
  let ?L = "\<lambda>c. case izq of None \<Rightarrow> [] | Some l \<Rightarrow> codigos_de l c"
  let ?R = "\<lambda>c. case der of None \<Rightarrow> [] | Some l \<Rightarrow> codigos_de l c"
  let ?nl = "case izq of None \<Rightarrow> 1 | Some l \<Rightarrow> marcos_necesarios l"
  let ?nr = "case der of None \<Rightarrow> 1 | Some l \<Rightarrow> marcos_necesarios l"
  have l: "generar_codigos k izq c m' =
             (if ?nl \<le> k then Inr (m' ++ map_of (rev (?L c))) else Inl RecursionError)" for k c m'
    using NodoHuffman.IH(1) by (cases izq) (auto simp: generar_codigos_None)
  have r: "generar_codigos k der c m' =
             (if ?nr \<le> k then Inr (m' ++ map_of (rev (?R c))) else Inl RecursionError)" for k c m'
    using NodoHuffman.IH(2) by (cases der) (auto simp: generar_codigos_None)
  show ?case
  proof (cases marcos)
    case 0
    then show ?thesis by simp
  next
    case (Suc k)
    show ?thesis
    proof (cases "izq = None \<and> der = None")
      case True
      then show ?thesis using Suc by (auto simp: map_add_def fun_eq_iff)
    next
      case False
      from False have c: "(izq = None \<and> der = None) = False" by simp
      have pos: "0 < ?nl" by (cases izq) (simp_all add: marcos_necesarios_pos)
      have n: "marcos_necesarios (NodoHuffman car fr izq der) = Suc (max ?nl ?nr)"
        by (simp only: marcos_necesarios.simps c if_False)
      have cd: "codigos_de (NodoHuffman car fr izq der) codigo
                  = ?L (codigo @ ''0'') @ ?R (codigo @ ''1'')"
        by (simp only: codigos_de.simps c if_False)
      have g: "generar_codigos (Suc k) (Some (NodoHuffman car fr izq der)) codigo m =
                 (if k = 0 then Inl RecursionError
                  else case generar_codigos k izq (codigo @ ''0'') m of
                         Inl e \<Rightarrow> Inl e
                       | Inr codigos1 \<Rightarrow> generar_codigos k der (codigo @ ''1'') codigos1)"
        by (simp only: generar_codigos.simps c if_False)
      show ?thesis unfolding Suc g n cd l r using pos by auto
    qed
  qed
qed

lemma hojas_no_vacio: "completo t \<Longrightarrow> hojas t \<noteq> []"
proof (induction t)
  case (NodoHuffman car fr izq der)
  show ?case
  proof (cases "izq = None \<and> der = None")
    case True
    then show ?thesis by simp
  next
    case False
    with NodoHuffman.prems obtain l r where lr: "izq = Some l" "der = Some r" and c: "completo l"
      by (cases izq; cases der) auto
    from NodoHuffman.IH(1)[of l] lr c have "hojas l \<noteq> []" by auto
    then show ?thesis unfolding lr by simp
  qed
qed

lemma completo_marcos: "completo t \<Longrightarrow> marcos_necesarios t \<le> Suc (length (hojas t))"
proof (induction t)
  case (NodoHuffman car fr izq der)
  show ?case
  proof (cases "izq = None \<and> der = None")
    case True
    then show ?thesis by simp
  next
    case False
    with NodoHuffman.prems obtain l r where lr: "izq = Some l" "der = Some r"
      and c: "completo l" "completo r"
      by (cases izq; cases der) auto
    have pl: "0 < length (hojas l)" using hojas_no_vacio[OF c(1)] by simp
    have pr: "0 < length (hojas r)" using hojas_no_vacio[OF c(2)] by simp
    from NodoHuffman.IH(1)[of l] NodoHuffman.IH(2)[of r] lr c
    have "marcos_necesarios l \<le> Suc (length (hojas l))"
      "marcos_necesarios r \<le> Suc (length (hojas r))" by auto
    moreover have "marcos_necesarios (NodoHuffman car fr izq der)
        = Suc (max (marcos_necesarios l) (marcos_necesarios r))" unfolding lr by simp
    moreover have "length (hojas (NodoHuffman car fr izq der)) = length (hojas l) + length (hojas r)"
      unfolding lr by simp
    ultimately show ?thesis using pl pr by linarith
  qed
qed

lemma codigos_extienden:
  "(k, c) \<in> set (codigos_de t codigo) \<Longrightarrow> codigo \<noteq> [] \<Longrightarrow> prefix codigo c"
proof (induction t arbitrary: codigo)
  case (NodoHuffman car fr izq der)
  show ?case
  proof (cases "izq = None \<and> der = None")
    case True
    with NodoHuffman.prems show ?thesis by simp
  next
    case False
    with NodoHuffman.prems(1) consider
      (l) l where "izq = Some l" "(k, c) \<in> set (codigos_de l (codigo @ ''0''))"
      | (r) r where "der = Some r" "(k, c) \<in> set (codigos_de r (codigo @ ''1''))"
      by (auto split: option.splits)
    then show ?thesis
    proof cases
      case l
      have "prefix (codigo @ ''0'') c" by (rule NodoHuffman.IH(1)[of l]) (use l in auto)
      then show ?thesis by (rule append_prefixD)
    next
      case r
      have "prefix (codigo @ ''1'') c" by (rule NodoHuffman.IH(2)[of r]) (use r in auto)
      then show ?thesis by (rule append_prefixD)
    qed
  qed
qed

lemma codigos_no_vacios: "(k, c) \<in> set (codigos_de t codigo) \<Longrightarrow> c \<noteq> []"
proof (induction t arbitrary: codigo)
  case (NodoHuffman car fr izq der)
  show ?case
  proof (cases "izq = None \<and> der = None")
    case True
    with NodoHuffman.prems show ?thesis by (auto split: if_splits)
  next
    case False
    with NodoHuffman.prems(1) consider
      (l) l where "izq = Some l" "(k, c) \<in> set (codigos_de l (codigo @ ''0''))"
      | (r) r where "der = Some r" "(k, c) \<in> set (codigos_de r (codigo @ ''1''))"
      by (auto split: option.splits)
    then show ?thesis
    proof cases
      case l
      show ?thesis by (rule NodoHuffman.IH(1)[of l]) (use l in auto)
    next
      case r
      show ?thesis by (rule NodoHuffman.IH(2)[of r]) (use r in auto)
    qed
  qed
qed

lemma ramas_incomparables:
  assumes "prefix (codigo @ ''0'') c" "prefix (codigo @ ''1'') d"
  shows "\<not> prefix c d" "\<not> prefix d c"
proof -
  have ne: "\<not> prefix (codigo @ ''0'') (codigo @ ''1'')" "\<not> prefix (codigo @ ''1'') (codigo @ ''0'')"
    by simp_all
  show "\<not> prefix c d"
  proof
    assume "prefix c d"
    with assms(1) have "prefix (codigo @ ''0'') d" by (rule prefix_order.trans)
    with assms(2) have "prefix (codigo @ ''0'') (codigo @ ''1'') \<or> prefix (codigo @ ''1'') (codigo @ ''0'')"
      using prefix_same_cases by blast
    with ne show False by blast
  qed
  show "\<not> prefix d c"
  proof
    assume "prefix d c"
    with assms(2) have "prefix (codigo @ ''1'') c" by (rule prefix_order.trans)
    with assms(1) have "prefix (codigo @ ''0'') (codigo @ ''1'') \<or> prefix (codigo @ ''1'') (codigo @ ''0'')"
      using prefix_same_cases by blast
    with ne show False by blast
  qed
qed

lemma codigos_incomparables: "sorted_wrt incomparables (codigos_de t codigo)"
proof (induction t arbitrary: codigo)
  case (NodoHuffman car fr izq der)
  let ?L = "case izq of None \<Rightarrow> [] | Some l \<Rightarrow> codigos_de l (codigo @ ''0'')"
  let ?R = "case der of None \<Rightarrow> [] | Some l \<Rightarrow> codigos_de l (codigo @ ''1'')"
  show ?case
  proof (cases "izq = None \<and> der = None")
    case True
    then show ?thesis by simp
  next
    case False
    have l: "sorted_wrt incomparables ?L" using NodoHuffman.IH(1) by (cases izq) auto
    have r: "sorted_wrt incomparables ?R" using NodoHuffman.IH(2) by (cases der) auto
    have pl: "prefix (codigo @ ''0'') (snd x)" if "x \<in> set ?L" for x
      using that codigos_extienden[of "fst x" "snd x" _ "codigo @ ''0''"]
      by (cases izq) auto
    have pr: "prefix (codigo @ ''1'') (snd y)" if "y \<in> set ?R" for y
      using that codigos_extienden[of "fst y" "snd y" _ "codigo @ ''1''"]
      by (cases der) auto
    have "incomparables x y" if "x \<in> set ?L" "y \<in> set ?R" for x y
      unfolding incomparables_def using ramas_incomparables[OF pl[OF that(1)] pr[OF that(2)]]
      by simp
    with l r have "sorted_wrt incomparables (?L @ ?R)" by (simp add: sorted_wrt_append)
    moreover from False have "(izq = None \<and> der = None) = False" by simp
    ultimately show ?thesis by (simp only: codigos_de.simps if_False)
  qed
qed

lemma hq_heappop_devuelve: "heap \<noteq> [] \<Longrightarrow> \<exists>x heap'. hq_heappop lt heap = Inr (x, heap')"
  by (simp add: hq_heappop_def Let_def)

lemma arbol_bucle_hojas:
  "heap \<noteq> [] \<Longrightarrow> \<exists>raiz. arbol_bucle heap = Inr [raiz] \<and> mset (hojas raiz) = hojas_heap heap"
proof (induction heap rule: arbol_bucle.induct)
  case (1 heap)
  show ?case
  proof (cases "length heap > 1")
    case False
    with "1.prems" obtain raiz where "heap = [raiz]" by (cases heap) auto
    then show ?thesis by (subst arbol_bucle.simps) (simp add: hojas_heap_def)
  next
    case True
    from hq_heappop_devuelve[OF "1.prems", of nodo_lt] obtain izq heap1 where
      p1: "hq_heappop nodo_lt heap = Inr (izq, heap1)" by blast
    have l1: "Suc (length heap1) = length heap" using p1 by (rule hq_heappop_largo)
    with True have "heap1 \<noteq> []" by auto
    from hq_heappop_devuelve[OF this, of nodo_lt] obtain der heap2 where
      p2: "hq_heappop nodo_lt heap1 = Inr (der, heap2)" by blast
    let ?p = "NodoHuffman None (frecuencia izq + frecuencia der) (Some izq) (Some der)"
    let ?h = "hq_heappush nodo_lt heap2 ?p"
    have ne: "?h \<noteq> []" by (metis hq_heappush_largo length_0_conv nat.distinct(1))
    from "1.IH"[OF True p1 refl p2 refl ne] obtain raiz where
      r: "arbol_bucle ?h = Inr [raiz]" "mset (hojas raiz) = hojas_heap ?h" by blast
    have m1: "mset heap = add_mset izq (mset heap1)" using p1 by (rule hq_heappop_mset)
    have m2: "mset heap1 = add_mset der (mset heap2)" using p2 by (rule hq_heappop_mset)
    have "hojas_heap ?h = hojas_heap heap"
      by (simp add: hojas_heap_def hq_heappush_mset m1 m2)
    with r True p1 p2 show ?thesis by (subst arbol_bucle.simps) simp
  qed
qed

lemma arbol_bucle_completo:
  "\<forall>t \<in> set heap. completo t \<Longrightarrow> arbol_bucle heap = Inr [raiz] \<Longrightarrow> completo raiz"
proof (induction heap rule: arbol_bucle.induct)
  case (1 heap)
  show ?case
  proof (cases "length heap > 1")
    case False
    with "1.prems"(2) have "heap = [raiz]" by (subst (asm) arbol_bucle.simps) simp
    with "1.prems"(1) show ?thesis by simp
  next
    case True
    then have "heap \<noteq> []" by auto
    from hq_heappop_devuelve[OF this, of nodo_lt] obtain izq heap1 where
      p1: "hq_heappop nodo_lt heap = Inr (izq, heap1)" by blast
    have l1: "Suc (length heap1) = length heap" using p1 by (rule hq_heappop_largo)
    with True have "heap1 \<noteq> []" by auto
    from hq_heappop_devuelve[OF this, of nodo_lt] obtain der heap2 where
      p2: "hq_heappop nodo_lt heap1 = Inr (der, heap2)" by blast
    let ?p = "NodoHuffman None (frecuencia izq + frecuencia der) (Some izq) (Some der)"
    let ?h = "hq_heappush nodo_lt heap2 ?p"
    have r: "arbol_bucle ?h = Inr [raiz]"
      using "1.prems"(2) True p1 p2 by (subst (asm) arbol_bucle.simps) simp
    have m1: "mset heap = add_mset izq (mset heap1)" using p1 by (rule hq_heappop_mset)
    have m2: "mset heap1 = add_mset der (mset heap2)" using p2 by (rule hq_heappop_mset)
    have s1: "set heap = insert izq (set heap1)" using m1 by (metis set_mset_add_mset_insert set_mset_mset)
    have s2: "set heap1 = insert der (set heap2)" using m2 by (metis set_mset_add_mset_insert set_mset_mset)
    have "mset ?h = add_mset ?p (mset heap2)" by (rule hq_heappush_mset)
    then have s3: "set ?h = insert ?p (set heap2)" by (metis set_mset_add_mset_insert set_mset_mset)
    have c: "\<forall>t \<in> set ?h. completo t" unfolding s3 using "1.prems"(1) s1 s2 by simp
    show ?thesis by (rule "1.IH"[OF True p1 refl p2 refl c r])
  qed
qed

lemma construir_arbol_hojas:
  assumes "frecuencias \<noteq> []"
  shows "\<exists>raiz. construir_arbol_huffman frecuencias = Inr (Some raiz) \<and>
           mset (hojas raiz) = mset (map (\<lambda>(s, f). Some s) frecuencias) \<and> completo raiz"
proof -
  let ?ini = "map (\<lambda>(char, freq). NodoHuffman (Some char) freq None None) frecuencias"
  let ?h = "hq_heapify nodo_lt ?ini"
  have mh: "mset ?h = mset ?ini" by (rule hq_heapify_mset)
  then have hh: "hojas_heap ?h = hojas_heap ?ini" by (simp add: hojas_heap_def)
  have "set ?h = set ?ini" using mh by (rule mset_eq_setD)
  then have ch: "\<forall>t \<in> set ?h. completo t" by auto
  have "hojas_heap ?ini = mset (map (\<lambda>(s, f). Some s) frecuencias)"
    unfolding hojas_heap_def by (induction frecuencias) (auto)
  moreover have "?h \<noteq> []" using assms mh
    by (metis Nil_is_map_conv mset_zero_iff)
  from arbol_bucle_hojas[OF this] obtain raiz where
    r: "arbol_bucle ?h = Inr [raiz]" "mset (hojas raiz) = hojas_heap ?h" by blast
  moreover have "completo raiz" using ch r(1) by (rule arbol_bucle_completo)
  ultimately show ?thesis using assms hh by (simp add: construir_arbol_huffman_def)
qed

lemma sorted_wrt_pares:
  "sorted_wrt P xs \<Longrightarrow> (\<And>a b. P a b \<Longrightarrow> P b a) \<Longrightarrow> distinct xs \<Longrightarrow>
   x \<in> set xs \<Longrightarrow> y \<in> set xs \<Longrightarrow> x \<noteq> y \<Longrightarrow> P x y"
  by (induction xs) auto

lemma decodificar_codigo:
  assumes d: "distinct (map fst tabla)"
    and pf: "\<And>s c t e. (s, c) \<in> set tabla \<Longrightarrow> (t, e) \<in> set tabla \<Longrightarrow> s \<noteq> t \<Longrightarrow> \<not> prefix c e"
  shows "(s, p @ q) \<in> set tabla \<Longrightarrow> q \<noteq> [] \<Longrightarrow>
         decodificar tabla p (q @ resto) = map_option ((#) s) (decodificar tabla [] resto)"
proof (induction q arbitrary: p)
  case Nil
  then show ?case by simp
next
  case (Cons b q)
  show ?case
  proof (cases "q = []")
    case True
    have "\<exists>x. find (\<lambda>(s, c). c = p @ [b]) tabla = Some x"
      using Cons.prems(1) True by (cases "find (\<lambda>(s, c). c = p @ [b]) tabla") (auto simp: find_None_iff)
    then obtain s' c' where f: "find (\<lambda>(s, c). c = p @ [b]) tabla = Some (s', c')" by auto
    then have in': "(s', c') \<in> set tabla" and c': "c' = p @ [b]"
      by (auto simp: find_Some_iff in_set_conv_nth)
    have "s' = s"
    proof (rule ccontr)
      assume "s' \<noteq> s"
      from pf[OF in' Cons.prems(1) this] show False using c' True by simp
    qed
    with f True show ?thesis by simp
  next
    case False
    have "find (\<lambda>(s, c). c = p @ [b]) tabla = None"
    proof (rule ccontr)
      assume "find (\<lambda>(s, c). c = p @ [b]) tabla \<noteq> None"
      then obtain s' c' where f: "find (\<lambda>(s, c). c = p @ [b]) tabla = Some (s', c')" by auto
      then have in': "(s', c') \<in> set tabla" and c': "c' = p @ [b]"
        by (auto simp: find_Some_iff in_set_conv_nth)
      have pre: "prefix c' (p @ b # q)" unfolding c' by (simp add: prefix_def)
      show False
      proof (cases "s' = s")
        case True
        with d in' Cons.prems(1) have "c' = p @ b # q" by (meson eq_key_imp_eq_value)
        with c' False show False by simp
      next
        case f2: False
        from pf[OF in' Cons.prems(1) f2] pre show False by simp
      qed
    qed
    moreover have "decodificar tabla (p @ [b]) (q @ resto) = map_option ((#) s) (decodificar tabla [] resto)"
      using Cons.prems(1) False by (intro Cons.IH) auto
    ultimately show ?thesis by simp
  qed
qed

lemma decodificar_todo:
  assumes d: "distinct (map fst tabla)"
    and pf: "\<And>s c t e. (s, c) \<in> set tabla \<Longrightarrow> (t, e) \<in> set tabla \<Longrightarrow> s \<noteq> t \<Longrightarrow> \<not> prefix c e"
    and ne: "\<And>s c. (s, c) \<in> set tabla \<Longrightarrow> c \<noteq> []"
  shows "set xs \<subseteq> fst ` set tabla \<Longrightarrow>
         decodificar tabla [] (concat (map (\<lambda>x. the (map_of tabla x)) xs)) = Some xs"
proof (induction xs)
  case Nil
  show ?case by simp
next
  case (Cons x xs)
  from Cons.prems obtain c where c: "(x, c) \<in> set tabla" by auto
  then have m: "map_of tabla x = Some c" using d by simp
  have "decodificar tabla [] (c @ concat (map (\<lambda>x. the (map_of tabla x)) xs))
      = map_option ((#) x) (decodificar tabla [] (concat (map (\<lambda>x. the (map_of tabla x)) xs)))"
    using decodificar_codigo[OF d pf, where s = x and p = "[]" and q = c] c ne[OF c] by simp
  with Cons m show ?case by simp
qed

lemma arbol_un_simbolo:
  "construir_arbol_huffman [(a, f)] = Inr (Some (NodoHuffman (Some a) f None None))"
  by (simp add: construir_arbol_huffman_def hq_heapify_def arbol_bucle.simps)

lemma incomparables_sim: "incomparables x y \<Longrightarrow> incomparables y x"
  by (auto simp: incomparables_def)

subsection \<open>Claim C8: the code table is prefix-free and decodes\<close>



text \<open>
  The tree of the example has three levels, so \<open>generar_codigos\<close> needs four frames on it:
  \<open>A\<close> gets one bit, \<open>B\<close> and \<open>C\<close> two.
\<close>

lemma arbol_ejemplo:
  "construir_arbol_huffman frecuencias_ejemplo =
     Inr (Some (NodoHuffman None 9
            (Some (NodoHuffman None 4 (Some (NodoHuffman (Some CHR ''C'') 1 None None))
                                      (Some (NodoHuffman (Some CHR ''B'') 3 None None))))
            (Some (NodoHuffman (Some CHR ''A'') 5 None None))))"
  by code_simp

lemma huffman_ejemplo:
  "map_sum id (\<lambda>raiz. map_sum id (\<lambda>codigos. map codigos [Some CHR ''A'', Some CHR ''B'', Some CHR ''C''])
                        (generar_codigos 4 raiz [] Map.empty))
     (construir_arbol_huffman frecuencias_ejemplo)
   = Inr (Inr [Some ''1'', Some ''01'', Some ''00''])"
  by (simp add: arbol_ejemplo eval_nat_numeral)



section \<open>Dijkstra: the loop invariant and the reconstructed path\<close>

text \<open>
  \<open>dij_inv\<close> is the invariant of the \<open>while heap\<close> loop, with the visited nodes listed in the
  order of their visit (\<open>ord\<close>): every heap entry is at least the recorded distance of its
  node; an unvisited node with a finite distance has an entry with exactly that distance; a
  predecessor is a visited node, joined to its successor by an edge whose weight is the
  difference of the two recorded distances, and visited before it. \<open>cadena pre s t xs\<close>: the
  predecessors lead from \<open>t\<close> back to \<open>s\<close> through the nodes \<open>xs\<close>.
  \<open>camino_con_pesos es ruta ws\<close>: consecutive nodes of \<open>ruta\<close> are joined by edges of \<open>es\<close>
  (in either direction) with the weights \<open>ws\<close>.
\<close>

definition dij_inv ::
  "'a arista list \<Rightarrow> 'a \<Rightarrow> 'a list \<Rightarrow> ('a \<rightharpoonup> distancia) \<Rightarrow> ('a \<rightharpoonup> 'a) \<Rightarrow> (int \<times> 'a) list \<Rightarrow> bool" where
  "dij_inv es s ord dis pre heap \<longleftrightarrow>
     dom dis = set (nodos_de es) \<and> dis s = Some (Finita 0) \<and> distinct ord \<and>
     (\<forall>(d, n) \<in> set heap. \<exists>dn. dis n = Some (Finita dn) \<and> dn \<le> d) \<and>
     (\<forall>n dn. n \<notin> set ord \<longrightarrow> dis n = Some (Finita dn) \<longrightarrow> (dn, n) \<in> set heap) \<and>
     (\<forall>v u. pre v = Some u \<longrightarrow> u \<in> set ord \<and> v \<noteq> s \<and>
        (\<exists>du w. dis u = Some (Finita du) \<and> (v, w) \<in> set (vecinos_de es u) \<and>
                dis v = Some (Finita (du + w)))) \<and>
     (s \<notin> set ord \<longrightarrow> heap = [(0, s)] \<and> pre = Map.empty \<and> ord = []) \<and>
     (\<forall>v dv. dis v = Some (Finita dv) \<longrightarrow> v = s \<or> v \<in> dom pre) \<and>
     (\<forall>v \<in> set ord. \<exists>dv. dis v = Some (Finita dv)) \<and>
     (\<forall>v u. pre v = Some u \<longrightarrow> v \<in> set ord \<longrightarrow>
        (\<exists>i j. i < j \<and> j < length ord \<and> ord ! i = u \<and> ord ! j = v))"

inductive cadena :: "('a \<rightharpoonup> 'a) \<Rightarrow> 'a \<Rightarrow> 'a \<Rightarrow> 'a list \<Rightarrow> bool" for pre s where
  cadena_origen: "cadena pre s s [s]"
| cadena_paso: "t \<noteq> s \<Longrightarrow> pre t = Some u \<Longrightarrow> cadena pre s u xs \<Longrightarrow> cadena pre s t (t # xs)"

fun camino_con_pesos :: "'a arista list \<Rightarrow> 'a list \<Rightarrow> int list \<Rightarrow> bool" where
  "camino_con_pesos es [x] [] = True"
| "camino_con_pesos es (x # y # r) (w # ws) =
     (((x, y, w) \<in> set es \<or> (y, x, w) \<in> set es) \<and> camino_con_pesos es (y # r) ws)"
| "camino_con_pesos es _ _ = False"

lemma vecinos_de_iff:
  "(v, w) \<in> set (vecinos_de es u) \<longleftrightarrow> (u, v, w) \<in> set es \<or> (v, u, w) \<in> set es"
  by (induction es) (auto simp: vecinos_de_def)

lemma vecino_es_nodo: "(v, w) \<in> set (vecinos_de es u) \<Longrightarrow> v \<in> set (nodos_de es) \<and> u \<in> set (nodos_de es)"
  by (auto simp: vecinos_de_iff nodos_de_conj)

lemma heappop_props:
  assumes "heap \<noteq> []" and "heappop heap = (m, heap1)"
  shows "m \<in> set heap" and "\<forall>x \<in> set heap. m \<le> x" and "set heap1 \<subseteq> set heap"
    and "\<forall>x \<in> set heap. x \<noteq> m \<longrightarrow> x \<in> set heap1"
    and "mset heap = add_mset m (mset heap1)"
proof -
  from assms(2) have m: "m = Min (set heap)" and h: "heap1 = remove1 m heap"
    by (auto simp: heappop_def Let_def)
  show "m \<in> set heap" unfolding m using assms(1) by (intro Min_in) auto
  then show "mset heap = add_mset m (mset heap1)" unfolding h by simp
  show "\<forall>x \<in> set heap. m \<le> x" unfolding m by auto
  show "set heap1 \<subseteq> set heap" unfolding h by (rule set_remove1_subset)
  show "\<forall>x \<in> set heap. x \<noteq> m \<longrightarrow> x \<in> set heap1" unfolding h by auto
qed

lemma dij_inv_inicial:
  "s \<in> set (nodos_de es) \<Longrightarrow>
   dij_inv es s [] ((\<lambda>nodo. if nodo \<in> set (nodos_de es) then Some Infinita else None)(s \<mapsto> Finita 0))
     Map.empty [(0, s)]"
  by (auto simp: dij_inv_def dom_def split: if_splits)

lemma dij_pop_visitado:
  assumes inv: "dij_inv es s ord dis pre heap" and ne: "heap \<noteq> []"
    and pop: "heappop heap = ((d, n), heap1)" and vis: "n \<in> set ord"
  shows "dij_inv es s ord dis pre heap1"
proof -
  note hp = heappop_props[OF ne pop]
  have s: "s \<in> set ord" using inv vis unfolding dij_inv_def by auto
  have 4: "\<forall>(d, n) \<in> set heap1. \<exists>dn. dis n = Some (Finita dn) \<and> dn \<le> d"
    using inv hp(3) unfolding dij_inv_def by blast
  have 5: "\<forall>m dm. m \<notin> set ord \<longrightarrow> dis m = Some (Finita dm) \<longrightarrow> (dm, m) \<in> set heap1"
  proof (intro allI impI)
    fix m dm assume m: "m \<notin> set ord" "dis m = Some (Finita dm)"
    with inv have "(dm, m) \<in> set heap" unfolding dij_inv_def by blast
    moreover have "(dm, m) \<noteq> (d, n)" using m(1) vis by auto
    ultimately show "(dm, m) \<in> set heap1" using hp(4) by blast
  qed
  show ?thesis
    using inv s 4 5 unfolding dij_inv_def by (intro conjI) (simp_all)
qed

lemma dij_invD:
  assumes "dij_inv es s ord dis pre heap"
  shows "dom dis = set (nodos_de es)" and "dis s = Some (Finita 0)" and "distinct ord"
    and "\<And>d n. (d, n) \<in> set heap \<Longrightarrow> \<exists>dn. dis n = Some (Finita dn) \<and> dn \<le> d"
    and "\<And>n dn. n \<notin> set ord \<Longrightarrow> dis n = Some (Finita dn) \<Longrightarrow> (dn, n) \<in> set heap"
    and "\<And>v u. pre v = Some u \<Longrightarrow> u \<in> set ord \<and> v \<noteq> s \<and>
        (\<exists>du w. dis u = Some (Finita du) \<and> (v, w) \<in> set (vecinos_de es u) \<and>
                dis v = Some (Finita (du + w)))"
    and "s \<notin> set ord \<Longrightarrow> heap = [(0, s)] \<and> pre = Map.empty \<and> ord = []"
    and "\<And>v dv. dis v = Some (Finita dv) \<Longrightarrow> v = s \<or> v \<in> dom pre"
    and "\<And>v. v \<in> set ord \<Longrightarrow> \<exists>dv. dis v = Some (Finita dv)"
    and "\<And>v u. pre v = Some u \<Longrightarrow> v \<in> set ord \<Longrightarrow>
        (\<exists>i j. i < j \<and> j < length ord \<and> ord ! i = u \<and> ord ! j = v)"
  using assms unfolding dij_inv_def by blast+

lemma dij_invI:
  assumes "dom dis = set (nodos_de es)" and "dis s = Some (Finita 0)" and "distinct ord"
    and "\<And>d n. (d, n) \<in> set heap \<Longrightarrow> \<exists>dn. dis n = Some (Finita dn) \<and> dn \<le> d"
    and "\<And>n dn. n \<notin> set ord \<Longrightarrow> dis n = Some (Finita dn) \<Longrightarrow> (dn, n) \<in> set heap"
    and "\<And>v u. pre v = Some u \<Longrightarrow> u \<in> set ord \<and> v \<noteq> s \<and>
        (\<exists>du w. dis u = Some (Finita du) \<and> (v, w) \<in> set (vecinos_de es u) \<and>
                dis v = Some (Finita (du + w)))"
    and "s \<notin> set ord \<Longrightarrow> heap = [(0, s)] \<and> pre = Map.empty \<and> ord = []"
    and "\<And>v dv. dis v = Some (Finita dv) \<Longrightarrow> v = s \<or> v \<in> dom pre"
    and "\<And>v. v \<in> set ord \<Longrightarrow> \<exists>dv. dis v = Some (Finita dv)"
    and "\<And>v u. pre v = Some u \<Longrightarrow> v \<in> set ord \<Longrightarrow>
        (\<exists>i j. i < j \<and> j < length ord \<and> ord ! i = u \<and> ord ! j = v)"
  shows "dij_inv es s ord dis pre heap"
  unfolding dij_inv_def using assms by blast

lemma dij_pop_nuevo:
  assumes inv: "dij_inv es s ord dis pre heap" and ne: "heap \<noteq> []"
    and pop: "heappop heap = ((d, n), heap1)" and nv: "n \<notin> set ord"
  shows "dis n = Some (Finita d)" and "n \<in> set (nodos_de es)"
    and "dij_inv es s (ord @ [n]) dis pre heap1" and "s \<in> set (ord @ [n])"
proof -
  note hp = heappop_props[OF ne pop]
  note i = dij_invD[OF inv]
  from i(4)[OF hp(1)] obtain dn where dn: "dis n = Some (Finita dn)" "dn \<le> d" by blast
  from i(5)[OF nv dn(1)] have "(dn, n) \<in> set heap" .
  with hp(2) have "(d, n) \<le> (dn, n)" by blast
  then have "d \<le> dn" by (auto simp: less_eq_prod_def)
  with dn show dn': "dis n = Some (Finita d)" by simp
  then show nN: "n \<in> set (nodos_de es)" using i(1) by auto
  show sv: "s \<in> set (ord @ [n])"
  proof (cases "s \<in> set ord")
    case True
    then show ?thesis by simp
  next
    case False
    from i(7)[OF False] hp(1) show ?thesis by simp
  qed
  show "dij_inv es s (ord @ [n]) dis pre heap1"
  proof (rule dij_invI)
    show "dom dis = set (nodos_de es)" by (rule i(1))
    show "dis s = Some (Finita 0)" by (rule i(2))
    show "distinct (ord @ [n])" using i(3) nv by simp
    show "\<exists>dn. dis m = Some (Finita dn) \<and> dn \<le> e" if "(e, m) \<in> set heap1" for e m
      using that hp(3) i(4) by blast
    show "(dm, m) \<in> set heap1" if "m \<notin> set (ord @ [n])" "dis m = Some (Finita dm)" for m dm
    proof -
      from that have "m \<notin> set ord" "m \<noteq> n" by auto
      from i(5)[OF this(1) that(2)] have "(dm, m) \<in> set heap" .
      moreover have "(dm, m) \<noteq> (d, n)" using \<open>m \<noteq> n\<close> by simp
      ultimately show ?thesis using hp(4) by blast
    qed
    show "u \<in> set (ord @ [n]) \<and> v \<noteq> s \<and>
        (\<exists>du w. dis u = Some (Finita du) \<and> (v, w) \<in> set (vecinos_de es u) \<and>
                dis v = Some (Finita (du + w)))" if "pre v = Some u" for v u
      using i(6)[OF that] by simp
    show "heap1 = [(0, s)] \<and> pre = Map.empty \<and> ord @ [n] = []" if "s \<notin> set (ord @ [n])"
      using that sv by simp
    show "v = s \<or> v \<in> dom pre" if "dis v = Some (Finita dv)" for v dv
      using i(8)[OF that] .
    show "\<exists>dv. dis v = Some (Finita dv)" if "v \<in> set (ord @ [n])" for v
      using that i(9) dn' by auto
    show "\<exists>i j. i < j \<and> j < length (ord @ [n]) \<and> (ord @ [n]) ! i = u \<and> (ord @ [n]) ! j = v"
      if p: "pre v = Some u" and v: "v \<in> set (ord @ [n])" for v u
    proof (cases "v \<in> set ord")
      case True
      from i(10)[OF p True] obtain a b where "a < b" "b < length ord" "ord ! a = u" "ord ! b = v"
        by blast
      then have "a < b \<and> b < length (ord @ [n]) \<and> (ord @ [n]) ! a = u \<and> (ord @ [n]) ! b = v"
        by (simp add: nth_append)
      then show ?thesis by blast
    next
      case False
      with v have vn: "v = n" by simp
      from i(6)[OF p] have "u \<in> set ord" by simp
      then obtain a where a: "a < length ord" "ord ! a = u" by (auto simp: in_set_conv_nth)
      then have "a < length ord \<and> length ord < length (ord @ [n]) \<and> (ord @ [n]) ! a = u \<and>
                 (ord @ [n]) ! (length ord) = v"
        using vn by (simp add: nth_append)
      then show ?thesis by blast
    qed
  qed
qed

lemma dij_relajar_paso:
  assumes inv: "dij_inv es s ord dis pre heap" and n: "n \<in> set ord" and s: "s \<in> set ord"
    and dn: "dis n = Some (Finita d)" and vw: "(v, w) \<in> set (vecinos_de es n)"
    and v: "v \<notin> set ord" and dv: "dis v = Some dv" and lt: "menor_que (d + w) dv"
  shows "dij_inv es s ord (dis(v \<mapsto> Finita (d + w))) (pre(v \<mapsto> n)) (heappush heap (d + w, v))"
proof -
  note i = dij_invD[OF inv]
  have vs: "v \<noteq> s" and vn: "v \<noteq> n" using v s n by auto
  show ?thesis
  proof (rule dij_invI)
    show "dom (dis(v \<mapsto> Finita (d + w))) = set (nodos_de es)" using i(1) dv by auto
    show "(dis(v \<mapsto> Finita (d + w))) s = Some (Finita 0)" using i(2) vs by simp
    show "distinct ord" by (rule i(3))
    show "\<exists>dn. (dis(v \<mapsto> Finita (d + w))) m = Some (Finita dn) \<and> dn \<le> e"
      if "(e, m) \<in> set (heappush heap (d + w, v))" for e m
    proof (cases "m = v")
      case True
      show ?thesis
      proof (cases "(e, m) = (d + w, v)")
        case True
        then show ?thesis by simp
      next
        case False
        with that have "(e, v) \<in> set heap" using True by (simp add: heappush_def)
        from i(4)[OF this] obtain dm where "dis v = Some (Finita dm)" "dm \<le> e" by blast
        with dv lt have "d + w \<le> e" by auto
        with True show ?thesis by simp
      qed
    next
      case False
      with that have "(e, m) \<in> set heap" by (simp add: heappush_def)
      from i(4)[OF this] False show ?thesis by simp
    qed
    show "(dm, m) \<in> set (heappush heap (d + w, v))"
      if "m \<notin> set ord" "(dis(v \<mapsto> Finita (d + w))) m = Some (Finita dm)" for m dm
    proof (cases "m = v")
      case True
      with that show ?thesis by (simp add: heappush_def)
    next
      case False
      with that have "dis m = Some (Finita dm)" by simp
      from i(5)[OF that(1) this] show ?thesis by (simp add: heappush_def)
    qed
    show "u \<in> set ord \<and> x \<noteq> s \<and>
        (\<exists>du w'. (dis(v \<mapsto> Finita (d + w))) u = Some (Finita du) \<and>
                  (x, w') \<in> set (vecinos_de es u) \<and>
                  (dis(v \<mapsto> Finita (d + w))) x = Some (Finita (du + w')))"
      if "(pre(v \<mapsto> n)) x = Some u" for x u
    proof (cases "x = v")
      case True
      with that have "u = n" by simp
      with True n vs vn dn vw show ?thesis by auto
    next
      case False
      with that have p: "pre x = Some u" by simp
      from i(6)[OF p] obtain du w' where
        "u \<in> set ord" "x \<noteq> s" "dis u = Some (Finita du)" "(x, w') \<in> set (vecinos_de es u)"
        "dis x = Some (Finita (du + w'))" by blast
      moreover from this(1) v have "u \<noteq> v" by auto
      ultimately show ?thesis using False by auto
    qed
    show "heappush heap (d + w, v) = [(0, s)] \<and> pre(v \<mapsto> n) = Map.empty \<and> ord = []"
      if "s \<notin> set ord" using that s by simp
    show "x = s \<or> x \<in> dom (pre(v \<mapsto> n))"
      if "(dis(v \<mapsto> Finita (d + w))) x = Some (Finita dx)" for x dx
    proof (cases "x = v")
      case True
      then show ?thesis by simp
    next
      case False
      with that have "dis x = Some (Finita dx)" by simp
      from i(8)[OF this] show ?thesis by auto
    qed
    show "\<exists>dx. (dis(v \<mapsto> Finita (d + w))) x = Some (Finita dx)" if "x \<in> set ord" for x
      using i(9)[OF that] that v by auto
    show "\<exists>i j. i < j \<and> j < length ord \<and> ord ! i = u \<and> ord ! j = x"
      if "(pre(v \<mapsto> n)) x = Some u" "x \<in> set ord" for x u
    proof -
      from that(2) v have "x \<noteq> v" by auto
      with that(1) have "pre x = Some u" by simp
      from i(10)[OF this that(2)] show ?thesis .
    qed
  qed
qed

lemma dij_relajar:
  assumes n: "n \<in> set ord" and s: "s \<in> set ord"
  shows "dij_inv es s ord dis pre heap \<Longrightarrow> dis n = Some (Finita d) \<Longrightarrow>
         set vs \<subseteq> set (vecinos_de es n) \<Longrightarrow>
         \<exists>dis' pre' heap'. relajar (set ord) d n vs dis pre heap = Inr (dis', pre', heap') \<and>
            dij_inv es s ord dis' pre' heap'"
proof (induction vs arbitrary: dis pre heap)
  case Nil
  then show ?case by simp
next
  case (Cons e vs)
  obtain v w where e: "e = (v, w)" by (cases e)
  have sub: "set vs \<subseteq> set (vecinos_de es n)" using Cons.prems(3) by simp
  have vw: "(v, w) \<in> set (vecinos_de es n)" using Cons.prems(3) e by simp
  show ?case
  proof (cases "v \<in> set ord")
    case True
    have step: "relajar (set ord) d n (e # vs) dis pre heap = relajar (set ord) d n vs dis pre heap"
      using True unfolding e by simp
    show ?thesis unfolding step by (rule Cons.IH[OF Cons.prems(1,2) sub])
  next
    case False
    have "v \<in> set (nodos_de es)" using vecino_es_nodo[OF vw] by simp
    then have "v \<in> dom dis" using dij_invD(1)[OF Cons.prems(1)] by simp
    then obtain dv where dv: "dis v = Some dv" by blast
    show ?thesis
    proof (cases "menor_que (d + w) dv")
      case f: False
      have step: "relajar (set ord) d n (e # vs) dis pre heap = relajar (set ord) d n vs dis pre heap"
        using False dv f unfolding e by (simp add: Let_def)
      show ?thesis unfolding step by (rule Cons.IH[OF Cons.prems(1,2) sub])
    next
      case True
      have inv': "dij_inv es s ord (dis(v \<mapsto> Finita (d + w))) (pre(v \<mapsto> n)) (heappush heap (d + w, v))"
        using Cons.prems(1) n s Cons.prems(2) vw False dv True by (rule dij_relajar_paso)
      have "v \<noteq> n" using False n by auto
      then have dn': "(dis(v \<mapsto> Finita (d + w))) n = Some (Finita d)" using Cons.prems(2) by simp
      have step: "relajar (set ord) d n (e # vs) dis pre heap
          = relajar (set ord) d n vs (dis(v \<mapsto> Finita (d + w))) (pre(v \<mapsto> n))
              (heappush heap (d + w, v))"
        using False dv True unfolding e by (simp add: Let_def)
      show ?thesis unfolding step by (rule Cons.IH[OF inv' dn' sub])
    qed
  qed
qed

lemma dij_bucle:
  "dij_inv es s ord dis pre heap \<Longrightarrow> vis = set ord \<Longrightarrow> grafo = construir_grafo es \<Longrightarrow>
   \<exists>ord' dis' pre'. dijkstra_bucle grafo dis pre vis heap = Inr (dis', pre') \<and>
      dij_inv es s ord' dis' pre' []"
proof (induction grafo dis pre vis heap arbitrary: ord rule: dijkstra_bucle.induct)
  case (1 grafo dis pre vis heap)
  show ?case
  proof (cases "heap = []")
    case True
    with "1.prems"(1) show ?thesis by (subst dijkstra_bucle.simps) auto
  next
    case False
    obtain d n heap1 where pop: "heappop heap = ((d, n), heap1)"
      by (metis surj_pair)
    show ?thesis
    proof (cases "n \<in> vis")
      case True
      have inv1: "dij_inv es s ord dis pre heap1"
        using "1.prems"(1) False pop True unfolding "1.prems"(2) by (rule dij_pop_visitado)
      from "1.IH"(1)[OF False pop[symmetric] refl True inv1 "1.prems"(2,3)]
      obtain ord' dis' pre' where
        "dijkstra_bucle grafo dis pre vis heap1 = Inr (dis', pre')" "dij_inv es s ord' dis' pre' []"
        by blast
      with False pop True show ?thesis by (subst dijkstra_bucle.simps) auto
    next
      case nv: False
      then have nv': "n \<notin> set ord" using "1.prems"(2) by simp
      note p = dij_pop_nuevo[OF "1.prems"(1) False pop nv']
      have g: "map_of grafo n = Some (vecinos_de es n)"
        using p(2) unfolding "1.prems"(3) by (simp add: construir_grafo_map_of)
      have nin: "n \<in> set (ord @ [n])" by simp
      from dij_relajar[OF nin p(4) p(3) p(1) subset_refl]
      obtain dis1 pre1 heap2 where
        r: "relajar (set (ord @ [n])) d n (vecinos_de es n) dis pre heap1 = Inr (dis1, pre1, heap2)"
        and inv2: "dij_inv es s (ord @ [n]) dis1 pre1 heap2" by blast
      have vs: "insert n vis = set (ord @ [n])" using "1.prems"(2) by simp
      have r': "relajar (insert n vis) d n (vecinos_de es n) dis pre heap1 = Inr (dis1, pre1, heap2)"
        using r unfolding vs .
      from "1.IH"(2)[OF False pop[symmetric] refl nv g r' refl refl inv2 vs "1.prems"(3)]
      obtain ord' dis' pre' where
        "dijkstra_bucle grafo dis1 pre1 (insert n vis) heap2 = Inr (dis', pre')"
        "dij_inv es s ord' dis' pre' []"
        by blast
      with False pop nv g r' show ?thesis by (subst dijkstra_bucle.simps) auto
    qed
  qed
qed

lemma ruta_bucle_cadena:
  "cadena pre s t xs \<Longrightarrow> ruta_bucle pre s t acc = Some (rev (acc @ xs))"
proof (induction arbitrary: acc rule: cadena.induct)
  case cadena_origen
  show ?case by (subst ruta_bucle.simps) simp
next
  case (cadena_paso t u xs)
  have "ruta_bucle pre s t acc = ruta_bucle pre s u (acc @ [t])"
    using cadena_paso.hyps(1,2) by (subst ruta_bucle.simps) simp
  also have "\<dots> = Some (rev ((acc @ [t]) @ xs))" by (rule cadena_paso.IH)
  finally show ?case by simp
qed

lemma cadena_extremos: "cadena pre s t xs \<Longrightarrow> xs \<noteq> [] \<and> hd xs = t \<and> last xs = s"
  by (induction rule: cadena.induct) auto

lemma camino_con_pesos_snoc:
  "camino_con_pesos es (p @ [u]) ws \<Longrightarrow> (u, t, w) \<in> set es \<or> (t, u, w) \<in> set es \<Longrightarrow>
   camino_con_pesos es (p @ [u, t]) (ws @ [w])"
proof (induction p arbitrary: ws)
  case Nil
  then show ?case by (cases ws) auto
next
  case (Cons x p)
  obtain y r where yr: "p @ [u] = y # r" by (cases "p @ [u]") auto
  then have yr': "p @ [u, t] = y # r @ [t]" by (cases p) auto
  from Cons.prems(1) yr obtain w' ws' where ws: "ws = w' # ws'"
    and e: "(x, y, w') \<in> set es \<or> (y, x, w') \<in> set es"
    and c: "camino_con_pesos es (p @ [u]) ws'"
    by (cases ws) auto
  from Cons.IH[OF c Cons.prems(2)] have "camino_con_pesos es (p @ [u, t]) (ws' @ [w])" .
  with e show ?case unfolding ws by (simp add: yr')
qed

lemma existe_cadena:
  assumes inv: "dij_inv es s ord dis pre heap"
  shows "t \<in> set ord \<Longrightarrow> \<exists>xs. cadena pre s t xs"
proof -
  note i = dij_invD[OF inv]
  have "\<exists>xs. cadena pre s (ord ! j) xs" if "j < length ord" for j
    using that
  proof (induction j rule: less_induct)
    case (less j)
    let ?t = "ord ! j"
    have tin: "?t \<in> set ord" using less.prems by simp
    show ?case
    proof (cases "?t = s")
      case True
      then show ?thesis using cadena_origen[of pre s] by auto
    next
      case False
      from i(9)[OF tin] obtain dv where "dis ?t = Some (Finita dv)" by blast
      from i(8)[OF this] False obtain u where u: "pre ?t = Some u" by auto
      from i(10)[OF u tin] obtain a b where ab: "a < b" "b < length ord" "ord ! a = u" "ord ! b = ?t"
        by blast
      from ab(2,4) less.prems i(3) have "b = j" by (simp add: nth_eq_iff_index_eq)
      with ab have "a < j" by simp
      from less.IH[OF this] ab(1,2) obtain xs where "cadena pre s (ord ! a) xs" by auto
      with ab(3) have "cadena pre s u xs" by simp
      with False u have "cadena pre s ?t (?t # xs)" by (rule cadena_paso)
      then show ?thesis by blast
    qed
  qed
  moreover assume "t \<in> set ord"
  ultimately show ?thesis by (auto simp: in_set_conv_nth)
qed

lemma cadena_distancias:
  assumes inv: "dij_inv es s ord dis pre heap" and nn: "\<forall>(u, v, w) \<in> set es. 0 \<le> w"
  shows "cadena pre s t xs \<Longrightarrow>
         \<exists>ds ws. map dis xs = map (\<lambda>d. Some (Finita d)) ds \<and> sorted_wrt (\<ge>) ds \<and>
                 camino_con_pesos es (rev xs) ws \<and> dis t = Some (Finita (sum_list ws)) \<and>
                 ds \<noteq> [] \<and> hd ds = sum_list ws"
proof (induction rule: cadena.induct)
  case cadena_origen
  have "map dis [s] = map (\<lambda>d. Some (Finita d)) [0] \<and> sorted_wrt (\<ge>) [0::int] \<and>
        camino_con_pesos es (rev [s]) [] \<and> dis s = Some (Finita (sum_list [])) \<and>
        [0::int] \<noteq> [] \<and> hd [0::int] = sum_list []"
    using dij_invD(2)[OF inv] by simp
  then show ?case by blast
next
  case (cadena_paso t u xs)
  from cadena_paso.IH obtain ds ws where
    m: "map dis xs = map (\<lambda>d. Some (Finita d)) ds" and so: "sorted_wrt (\<ge>) ds"
    and c: "camino_con_pesos es (rev xs) ws" and du: "dis u = Some (Finita (sum_list ws))"
    and ne: "ds \<noteq> []" and hd: "hd ds = sum_list ws" by blast
  from dij_invD(6)[OF inv cadena_paso.hyps(2)] du obtain w where
    vw: "(t, w) \<in> set (vecinos_de es u)" and dt: "dis t = Some (Finita (sum_list ws + w))" by auto
  from vw have e: "(u, t, w) \<in> set es \<or> (t, u, w) \<in> set es" by (simp add: vecinos_de_iff)
  with nn have w0: "0 \<le> w" by auto
  from cadena_extremos[OF cadena_paso.hyps(3)] obtain p where p: "rev xs = p @ [u]"
    by (metis append_butlast_last_id hd_rev rev_is_Nil_conv last_rev rev_rev_ident)
  have c': "camino_con_pesos es (rev (t # xs)) (ws @ [w])"
    using camino_con_pesos_snoc[OF c[unfolded p] e] by (simp add: p)
  have le: "\<forall>x \<in> set ds. x \<le> sum_list ws + w"
  proof
    fix x assume "x \<in> set ds"
    with so ne hd have "x \<le> sum_list ws" by (cases ds) auto
    with w0 show "x \<le> sum_list ws + w" by simp
  qed
  have "map dis (t # xs) = map (\<lambda>d. Some (Finita d)) ((sum_list ws + w) # ds) \<and>
        sorted_wrt (\<ge>) ((sum_list ws + w) # ds) \<and>
        camino_con_pesos es (rev (t # xs)) (ws @ [w]) \<and>
        dis t = Some (Finita (sum_list (ws @ [w]))) \<and>
        (sum_list ws + w) # ds \<noteq> [] \<and> hd ((sum_list ws + w) # ds) = sum_list (ws @ [w])"
    using m so c' dt le by simp
  then show ?case by blast
qed

subsection \<open>Claim C6: distances along a reconstructed path\<close>

text \<open>
  C6. For an edge list with non-negative weights and a source in the graph, \<open>dijkstra\<close>
  returns its two dictionaries, and for every target \<open>reconstruir_ruta\<close> returns a path.
  When the path is not empty it starts at the source and ends at the target, every node on
  it has a finite recorded distance, these distances are non-decreasing from the source to
  the target, consecutive nodes are joined by edges of the list, and the weights of these
  edges sum to the recorded distance of the target.
\<close>

theorem dijkstra_ruta:
  assumes "list_all (\<lambda>(u, v, w). 0 \<le> w) aristas" and "nodo_origen \<in> set (nodos_de aristas)"
  shows "\<exists>distancias predecesores.
     dijkstra aristas nodo_origen = Inr (distancias, predecesores) \<and>
     (\<forall>destino. \<exists>ruta. reconstruir_ruta predecesores nodo_origen destino = Some ruta \<and>
        (ruta \<noteq> [] \<longrightarrow> hd ruta = nodo_origen \<and> last ruta = destino \<and>
           (\<exists>ds ws. map distancias ruta = map (\<lambda>d. Some (Finita d)) ds \<and> sorted ds \<and>
                    camino_con_pesos aristas ruta ws \<and>
                    distancias destino = Some (Finita (sum_list ws)))))"
proof -
  have nn: "\<forall>(u, v, w) \<in> set aristas. 0 \<le> w" using assms(1) by (simp add: list_all_iff)
  let ?g = "construir_grafo aristas"
  let ?d0 = "(\<lambda>nodo. if nodo \<in> fst ` set ?g then Some Infinita else None)(nodo_origen \<mapsto> Finita 0)"
  have k: "fst ` set ?g = set (nodos_de aristas)" by (rule construir_grafo_claves)
  have inv0: "dij_inv aristas nodo_origen [] ?d0 Map.empty [(0, nodo_origen)]"
    unfolding k using assms(2) by (rule dij_inv_inicial)
  from dij_bucle[OF inv0, of "{}" ?g] obtain ord dis pre where
    b: "dijkstra_bucle ?g ?d0 Map.empty {} [(0, nodo_origen)] = Inr (dis, pre)"
    and inv: "dij_inv aristas nodo_origen ord dis pre []" by auto
  have dj: "dijkstra aristas nodo_origen = Inr (dis, pre)"
    using assms(2) b by (simp add: dijkstra_def Let_def k)
  note i = dij_invD[OF inv]
  have sv: "nodo_origen \<in> set ord" using i(7) by auto
  have r: "\<exists>ruta. reconstruir_ruta pre nodo_origen destino = Some ruta \<and>
        (ruta \<noteq> [] \<longrightarrow> hd ruta = nodo_origen \<and> last ruta = destino \<and>
           (\<exists>ds ws. map dis ruta = map (\<lambda>d. Some (Finita d)) ds \<and> sorted ds \<and>
                    camino_con_pesos aristas ruta ws \<and>
                    dis destino = Some (Finita (sum_list ws))))" for destino
  proof (cases "destino \<in> set ord")
    case False
    then have ne: "destino \<noteq> nodo_origen" using sv by auto
    have "pre destino = None"
    proof (rule ccontr)
      assume "pre destino \<noteq> None"
      then obtain u where "pre destino = Some u" by auto
      from i(6)[OF this] obtain dv where "dis destino = Some (Finita dv)" by blast
      from i(5)[OF False this] show False by simp
    qed
    then have "destino \<notin> dom pre" by auto
    with ne have "reconstruir_ruta pre nodo_origen destino = Some []"
      by (simp add: reconstruir_ruta_def)
    then show ?thesis by simp
  next
    case True
    from existe_cadena[OF inv True] obtain xs where c: "cadena pre nodo_origen destino xs" ..
    from i(9)[OF True] obtain dv where "dis destino = Some (Finita dv)" by blast
    from i(8)[OF this] have "\<not> (destino \<notin> dom pre \<and> destino \<noteq> nodo_origen)" by auto
    then have "reconstruir_ruta pre nodo_origen destino = ruta_bucle pre nodo_origen destino []"
      unfolding reconstruir_ruta_def by (rule if_not_P)
    also have "\<dots> = Some (rev ([] @ xs))" using c by (rule ruta_bucle_cadena)
    finally have rr: "reconstruir_ruta pre nodo_origen destino = Some (rev xs)" by simp
    from cadena_extremos[OF c] have ex: "hd (rev xs) = nodo_origen" "last (rev xs) = destino"
      by (simp_all add: hd_rev last_rev)
    from cadena_distancias[OF inv nn c] obtain ds ws where
      m: "map dis xs = map (\<lambda>d. Some (Finita d)) ds" and so: "sorted_wrt (\<ge>) ds"
      and cp: "camino_con_pesos aristas (rev xs) ws"
      and dt: "dis destino = Some (Finita (sum_list ws))" by blast
    have "map dis (rev xs) = map (\<lambda>d. Some (Finita d)) (rev ds)"
      using m by (metis rev_map)
    moreover have "sorted (rev ds)"
      using so by (simp add: sorted_wrt_rev)
    ultimately have "\<exists>ds ws. map dis (rev xs) = map (\<lambda>d. Some (Finita d)) ds \<and> sorted ds \<and>
                    camino_con_pesos aristas (rev xs) ws \<and>
                    dis destino = Some (Finita (sum_list ws))"
      using cp dt by blast
    with rr ex show ?thesis by simp
  qed
  show ?thesis
    by (rule exI[of _ dis], rule exI[of _ pre], rule conjI[OF dj], rule allI, rule r)
qed

theorem dijkstra_ruta_witness:
  "list_all (\<lambda>(u, v, w). 0 \<le> w) aristas_ejemplo \<and> ''A'' \<in> set (nodos_de aristas_ejemplo) \<and>
   (\<exists>distancias predecesores.
     dijkstra aristas_ejemplo ''A'' = Inr (distancias, predecesores) \<and>
     (\<forall>destino. \<exists>ruta. reconstruir_ruta predecesores ''A'' destino = Some ruta \<and>
        (ruta \<noteq> [] \<longrightarrow> hd ruta = ''A'' \<and> last ruta = destino \<and>
           (\<exists>ds ws. map distancias ruta = map (\<lambda>d. Some (Finita d)) ds \<and> sorted ds \<and>
                    camino_con_pesos aristas_ejemplo ruta ws \<and>
                    distancias destino = Some (Finita (sum_list ws))))))"
proof -
  have h1: "list_all (\<lambda>(u, v, w). 0 \<le> w) aristas_ejemplo" by (simp add: aristas_ejemplo_def)
  have h2: "''A'' \<in> set (nodos_de aristas_ejemplo)"
    by (simp add: aristas_ejemplo_def nodos_de_def)
  show ?thesis by (intro conjI h1 h2 dijkstra_ruta[OF h1 h2])
qed

text \<open>The example of the spec: from \<open>A\<close> the distances are 0, 1, 3 and the path to \<open>C\<close> goes
  through \<open>B\<close>.\<close>

lemma dijkstra_ejemplo:
  "map_sum id (\<lambda>(distancias, predecesores).
       (map distancias [''A'', ''B'', ''C''], reconstruir_ruta predecesores ''A'' ''C''))
     (dijkstra aristas_ejemplo ''A'')
   = Inr ([Some (Finita 0), Some (Finita 1), Some (Finita 3)], Some [''A'', ''B'', ''C''])"
  by code_simp

end
